theory Spec2Isabelle
  imports Complex_Main "HOL-Library.Word"
begin

section \<open>The benchmark driver of log-it-cpp (bench/logit_bench.cpp)\<close>

text \<open>
  The driver is C++ for an LP64 target: \<open>std::size_t\<close> and \<open>unsigned long long\<close> are
  64-bit unsigned integers, modelled as \<open>64 word\<close>. Durations are counts of nanoseconds
  (\<open>std::chrono::nanoseconds\<close>), modelled as \<open>int\<close>. Strings are byte lists; allocation
  limits of \<open>std::string\<close> and \<open>std::vector\<close> are not modelled.
\<close>

type_synonym size_t = "64 word"

subsection \<open>Scenario\<close>

text \<open>
  Modelled from the spec: Scenario.hpp is not among the sources. The sink kind is the
  enumeration the spec gives (null, file), with the two values the driver names.
\<close>

datatype SinkKind = Null | File

text \<open>
  Modelled from the spec: Scenario.hpp is not among the sources. A scenario is the
  configuration value of the spec: async flag, sink kind, producer count, message size in
  bytes and total message count, under the names the driver uses for the fields.
\<close>

record Scenario =
  async :: bool
  sink :: SinkKind
  producers :: size_t
  message_bytes :: size_t
  total_messages :: size_t

subsection \<open>make_message\<close>

text \<open>
  \<^verbatim>\<open>if (bytes == 0) return {};
  const char fill = static_cast<char>('A' + static_cast<int>(index % 26));
  return std::string(bytes, fill);\<close>
\<close>

definition make_message :: "size_t \<Rightarrow> size_t \<Rightarrow> string" where
  "make_message bytes index =
     (if bytes = 0 then []
      else let fill = char_of (of_char CHR ''A'' + unat (index mod 26))
           in replicate (unat bytes) fill)"

subsection \<open>get_env_size_t\<close>

text \<open>
  \<^verbatim>\<open>if (const char* v = std::getenv(name)) {
      try {
          return static_cast<std::size_t>(std::stoull(v));
      } catch (...) {
          // fallthrough
      }
  }
  return def;\<close>
  The process environment is a partial map from names to values (\<open>std::getenv\<close> returns
  a null pointer for a name that is not set). \<open>std::stoull\<close> is the standard library's:
  it is a parameter of the model, returning the parsed value or the exception it throws.
  The function's own result is a sum as well, so that an exception leaving it would be
  the value \<open>Inl\<close>.
\<close>

datatype exn = Invalid_argument | Out_of_range | Other_exception

type_synonym environ = "string \<Rightarrow> string option"

definition get_env_size_t ::
  "environ \<Rightarrow> (string \<Rightarrow> exn + 64 word) \<Rightarrow> string \<Rightarrow> size_t \<Rightarrow> exn + size_t" where
  "get_env_size_t getenv stoull name def =
     (case getenv name of
        Some v \<Rightarrow>
          (case stoull v of
             Inr n \<Rightarrow> Inr (ucast n)
           | Inl _ \<Rightarrow> Inr def)
      | None \<Rightarrow> Inr def)"

subsection \<open>run_workload: distributing the messages\<close>

text \<open>
  \<^verbatim>\<open>std::vector<std::size_t> per_thread(scenario.producers, 0);
  const std::size_t base = total_messages / scenario.producers;
  std::size_t rem = total_messages % scenario.producers;
  for (std::size_t i = 0; i < scenario.producers; ++i) {
      per_thread[i] = base + (rem ? 1 : 0);
      if (rem) --rem;
  }\<close>
  The loop is the recursion \<open>distribute_loop\<close> on the loop variables \<open>i\<close>, \<open>rem\<close> and
  the vector; \<open>distribute\<close> is the block as a whole. It is only reached with
  \<open>scenario.producers \<noteq> 0\<close>.
\<close>

function distribute_loop ::
  "size_t \<Rightarrow> size_t \<Rightarrow> size_t \<Rightarrow> size_t \<Rightarrow> size_t list \<Rightarrow> size_t list" where
  "distribute_loop n_producers base i rem per_thread =
     (if i < n_producers then
        distribute_loop n_producers base (i + 1)
          (if rem \<noteq> 0 then rem - 1 else rem)
          (per_thread[unat i := base + (if rem \<noteq> 0 then 1 else 0)])
      else per_thread)"
  by pat_completeness auto
termination
proof (relation "measure (\<lambda>(n_producers, base, i, rem, per_thread). unat n_producers - unat i)")
  show "wf (measure (\<lambda>(n_producers, base, i, rem, per_thread). unat n_producers - unat i))"
    by simp
next
  fix n_producers base i rem :: size_t and per_thread :: "size_t list"
  assume lt: "i < n_producers"
  then have less: "unat i < unat n_producers"
    by (simp add: word_less_nat_alt)
  moreover have "unat n_producers < 2 ^ 64"
    using unsigned_less [of n_producers, where ?'a = nat] by simp
  ultimately have "unat i + unat (1::size_t) < 2 ^ LENGTH(64)"
    by simp
  then have "unat (i + 1) = unat i + unat (1::size_t)"
    by (simp only: unat_add_lem)
  with less show
    "((n_producers, base, i + 1, if rem \<noteq> 0 then rem - 1 else rem,
        per_thread[unat i := base + (if rem \<noteq> 0 then 1 else 0)]),
       (n_producers, base, i, rem, per_thread))
      \<in> measure (\<lambda>(n_producers, base, i, rem, per_thread). unat n_producers - unat i)"
    by simp
qed

definition distribute :: "size_t \<Rightarrow> size_t \<Rightarrow> size_t list" where
  "distribute n_messages n_producers =
     distribute_loop n_producers (n_messages div n_producers) 0 (n_messages mod n_producers)
       (replicate (unat n_producers) 0)"

subsection \<open>The latency recorder\<close>

text \<open>
  Modelled from the spec: LatencyRecorder.hpp is not among the sources. A token binds a
  slot index and the recording flag.
\<close>

record Token =
  slot :: nat
  recording :: bool

text \<open>
  Modelled from the spec: LatencyRecorder.hpp is not among the sources. A sample slot
  holds the start timestamp and, after completion, the end timestamp.
\<close>

record Slot =
  t_start :: "int option"
  t_end :: "int option"

text \<open>
  Modelled from the spec: LatencyRecorder.hpp is not among the sources. The recorder owns
  a fixed array of slots, allocated at construction and never resized, and the monotonic
  counter that issues slot indices.
\<close>

record LatencyRecorder =
  slots :: "Slot list"
  next_slot :: nat

text \<open>
  Modelled from the spec: LatencyRecorder.hpp is not among the sources. The summary has
  the p50, p99 and p99.9 latencies in nanoseconds, under the field names the driver
  prints.
\<close>

record Summary =
  p50_ns :: int
  p99_ns :: int
  p999_ns :: int

text \<open>
  Modelled from the spec: the constructor of LatencyRecorder, which is not among the
  sources. It allocates \<open>capacity\<close> empty slots.
\<close>

definition new_recorder :: "size_t \<Rightarrow> LatencyRecorder" where
  "new_recorder capacity =
     \<lparr>slots = replicate (unat capacity) \<lparr>t_start = None, t_end = None\<rparr>, next_slot = 0\<rparr>"

text \<open>
  Modelled from the spec: \<open>LatencyRecorder::begin\<close>, which is not among the sources. It
  "atomically claims the next free slot index (monotonic counter, thread-safe across
  producers), captures a start timestamp only if \<open>record_latency\<close> is true [...] and returns
  a token binding {slot index, recording flag}": every call advances the counter, with or
  without recording, so that "each call observes a unique, previously-unused index".
  Without recording nothing is written and the slot of that index keeps the sentinel
  "latency not recorded" (no timestamp). With recording the start timestamp is written to
  the slot. The spec requires the capacity to cover the calls and does not say what the
  write does at an index beyond the array: here that call fails (\<open>None\<close>).
\<close>

definition recorder_begin ::
  "LatencyRecorder \<Rightarrow> bool \<Rightarrow> int \<Rightarrow> (Token \<times> LatencyRecorder) option" where
  "recorder_begin r record_latency t =
     (if \<not> record_latency then
        Some (\<lparr>slot = next_slot r, recording = False\<rparr>, r\<lparr>next_slot := Suc (next_slot r)\<rparr>)
      else if next_slot r < length (slots r) then
        Some (\<lparr>slot = next_slot r, recording = True\<rparr>,
              r\<lparr>slots := (slots r)[next_slot r := \<lparr>t_start = Some t, t_end = None\<rparr>],
                next_slot := Suc (next_slot r)\<rparr>)
      else None)"

text \<open>
  Modelled from the spec: \<open>LatencyRecorder::complete\<close>, which is not among the sources.
  It is a no-op on a token whose recording flag is false and stores the end timestamp in
  the token's slot otherwise.
\<close>

definition recorder_complete :: "LatencyRecorder \<Rightarrow> Token \<Rightarrow> int \<Rightarrow> LatencyRecorder" where
  "recorder_complete r token t =
     (if \<not> recording token then r
      else r\<lparr>slots := (slots r)[slot token := (slots r ! slot token)\<lparr>t_end := Some t\<rparr>]\<rparr>)"

text \<open>
  Modelled from the spec: the samples \<open>LatencyRecorder::finalize\<close> collects, the
  durations end - start of the slots that hold both timestamps.
\<close>

definition durations :: "LatencyRecorder \<Rightarrow> int list" where
  "durations r =
     map (\<lambda>s. the (t_end s) - the (t_start s))
       (filter (\<lambda>s. t_start s \<noteq> None \<and> t_end s \<noteq> None) (slots r))"


text \<open>
  Modelled from the spec: nearest-rank selection on the sorted samples, the sample of
  rank \<open>\<lceil>num / den * n\<rceil>\<close> among \<open>n\<close>, and 0 when there is no sample.
\<close>

definition nearest_rank :: "int list \<Rightarrow> nat \<Rightarrow> nat \<Rightarrow> int" where
  "nearest_rank sorted_samples num den =
     (if sorted_samples = [] then 0
      else sorted_samples ! ((num * length sorted_samples + den - 1) div den - 1))"

text \<open>
  Modelled from the spec: \<open>LatencyRecorder::finalize\<close>, which is not among the sources.
  It sorts the samples and selects p50, p99 and p99.9 by nearest rank; it leaves the
  recorder as it is.
\<close>

definition recorder_finalize :: "LatencyRecorder \<Rightarrow> Summary" where
  "recorder_finalize r =
     (let sorted_samples = sort (durations r)
      in \<lparr>p50_ns = nearest_rank sorted_samples 50 100,
          p99_ns = nearest_rank sorted_samples 99 100,
          p999_ns = nearest_rank sorted_samples 999 1000\<rparr>)"

subsection \<open>The world the driver acts on\<close>

text \<open>
  The trace is a ghost variable: the calls the driver makes and the assignments of the
  start barrier, in the order they happen. \<open>now\<close> is the reading of
  \<open>std::chrono::steady_clock\<close> in nanoseconds.
\<close>

datatype event =
    EvConstruct size_t
  | EvPrepare
  | EvRun size_t bool bool
  | EvFinalize
  | EvSpawn nat
  | EvReady nat
  | EvT0 int
  | EvStartFlag
  | EvBegin nat bool
  | EvLog nat string
  | EvJoin nat
  | EvFlush
  | EvT1 int

text \<open>
  Modelled from the spec: the adapters (adapters/LogItAdapter.hpp and
  adapters/SpdlogAdapter.hpp) are not among the sources. Of a backend the model keeps
  whether it is asynchronous and the tokens of the messages it has accepted and not yet
  processed, oldest first.
\<close>

record Adapter =
  is_async :: bool
  pending :: "Token list"

record world =
  adapter :: Adapter
  recorder :: LatencyRecorder
  now :: int
  trace :: "event list"

definition emit :: "event \<Rightarrow> 'a world_scheme \<Rightarrow> 'a world_scheme" where
  "emit e w = w\<lparr>trace := trace w @ [e]\<rparr>"

subsection \<open>The adapter contract\<close>

text \<open>
  Modelled from the spec: \<open>prepare(scenario, recorder)\<close> of the adapters, which are not
  among the sources. It wires the recorder into the sink of a backend set up for the
  scenario, with nothing outstanding.
\<close>

definition adapter_prepare :: "Scenario \<Rightarrow> 'a world_scheme \<Rightarrow> 'a world_scheme" where
  "adapter_prepare scenario w = w\<lparr>adapter := \<lparr>is_async = async scenario, pending = []\<rparr>\<rparr>"

text \<open>
  Modelled from the spec: \<open>log(token, message)\<close> of the adapters. It writes or enqueues
  one message and eventually triggers \<open>complete(token)\<close>: on the caller's thread for a
  synchronous backend, on the consumer thread otherwise.
\<close>

definition adapter_log :: "Token \<Rightarrow> string \<Rightarrow> 'a world_scheme \<Rightarrow> 'a world_scheme" where
  "adapter_log token msg w =
     (if is_async (adapter w)
      then w\<lparr>adapter := (adapter w)\<lparr>pending := pending (adapter w) @ [token]\<rparr>\<rparr>
      else w\<lparr>recorder := recorder_complete (recorder w) token (now w)\<rparr>)"

text \<open>
  Modelled from the spec: one step of the consumer thread of an asynchronous backend
  (the actor \<open>Sink\<close> of the scheduler below). It processes the oldest outstanding message
  and completes its token.
\<close>

definition adapter_sink :: "'a world_scheme \<Rightarrow> 'a world_scheme" where
  "adapter_sink w =
     (case pending (adapter w) of
        [] \<Rightarrow> w
      | token # rest \<Rightarrow>
          w\<lparr>adapter := (adapter w)\<lparr>pending := rest\<rparr>,
            recorder := recorder_complete (recorder w) token (now w)\<rparr>)"

text \<open>
  Modelled from the spec: \<open>flush()\<close> of the adapters. It returns when all outstanding
  messages are processed.
\<close>

definition adapter_flush :: "'a world_scheme \<Rightarrow> 'a world_scheme" where
  "adapter_flush w =
     w\<lparr>adapter := (adapter w)\<lparr>pending := []\<rparr>,
       recorder := fold (\<lambda>token r. recorder_complete r token (now w))
                     (pending (adapter w)) (recorder w)\<rparr>"

subsection \<open>run_workload: the threads\<close>

text \<open>
  The producers and the controlling thread run in parallel. The model interleaves their
  atomic actions under a scheduler: a list of pairs of the actor that moves next and the
  time that passes before it moves. An actor that cannot move (a thread not yet spawned,
  a thread blocked in a wait, a join of a thread still running) leaves the state as it
  is. \<open>ready\<close> and \<open>start_flag\<close> are read and written under \<open>start_mx\<close> only, so each
  critical section is one action.

  The controlling thread and the producers wait on the same condition variable
  \<open>start_cv\<close>. \<open>start_cv.wait(lk, pred)\<close> is \<open>while (!pred()) wait(lk)\<close>: a thread that finds
  its predicate false blocks (\<open>cv_block\<close> puts it among the threads \<open>asleep\<close>), and a blocked
  thread does not move until it is woken; once woken it tests its predicate again.
  \<open>notify_all\<close> wakes every blocked thread. \<open>notify_one\<close> wakes one of the threads blocked
  at the moment of the call, and the implementation chooses which: the model records those
  threads in \<open>notified\<close>, and the scheduler resolves the choice by the action
  \<open>Deliver a\<close>, which wakes \<open>a\<close> if it is one of them. \<open>run_workload\<close> calls \<open>notify_one\<close> at
  most once in a run (in the producer whose increment makes \<open>ready\<close> equal to \<open>producers\<close>;
  lemma \<open>notify_one_once\<close> below), so one pending notification is all the state needs. The standard also allows a wait to
  return with no notification: that is the action \<open>Spurious a\<close>, which a scheduler is free
  never to take.

  The body of a producer, with the index \<open>i\<close> it has captured:
  \<^verbatim>\<open>std::string message = make_message(scenario.message_bytes, i);
  {
      std::unique_lock<std::mutex> lk(start_mx);
      ++ready;
      if (ready == scenario.producers) start_cv.notify_one();
      start_cv.wait(lk, [&]{ return start_flag; });
  }
  for (std::size_t n = 0; n < per_thread[i]; ++n) {
      auto token = recorder.begin(record_latency);
      adapter.log(token, message);
  }\<close>
  A producer is at \<open>AtEntry\<close> once spawned; its first action builds the message, takes
  the lock, increments \<open>ready\<close>, calls \<open>notify_one\<close> if it is the last to arrive, tests
  \<open>start_flag\<close> and blocks if it is false. At \<open>Waiting\<close> it is inside the wait: blocked, or
  woken and about to test \<open>start_flag\<close> again. At \<open>Loop n\<close> it tests \<open>n < per_thread[i]\<close> and calls
  \<open>recorder.begin\<close>; at \<open>Logging n token\<close> it calls \<open>adapter.log(token, message)\<close> and
  increments \<open>n\<close>. It is \<open>Finished\<close> when the loop is left, and \<open>Crashed\<close> when
  \<open>recorder.begin\<close> has failed.
\<close>

datatype producer_pc =
    AtEntry
  | Waiting
  | Loop size_t
  | Logging size_t Token
  | Finished
  | Crashed

record producer =
  idx :: size_t
  message :: string
  pc :: producer_pc

datatype main_pc =
    Spawning size_t
  | WaitReady
  | Joining nat
  | AfterFlush
  | Returned int

datatype thread_id = Controlling | Producing nat

record run_state = world +
  per_thread :: "size_t list"
  start_flag :: bool
  ready :: size_t
  threads :: "producer list"
  t0 :: int
  ctl :: main_pc
  asleep :: "thread_id list"
  notified :: "thread_id list"

datatype actor = Main | Producer nat | Sink | Deliver thread_id | Spurious thread_id

type_synonym schedule = "(actor \<times> nat) list"

text \<open>
  The condition variable \<open>start_cv\<close>: \<open>wait(lk)\<close> blocks the caller; \<open>notify_one\<close> leaves the
  threads blocked at the call as the candidates of one wake-up; \<open>notify_all\<close> wakes every
  blocked thread; \<open>cv_wake\<close> unblocks one thread, and \<open>cv_deliver\<close> does so for a candidate
  of the pending \<open>notify_one\<close>, which is then used up.
\<close>

definition cv_block :: "thread_id \<Rightarrow> run_state \<Rightarrow> run_state" where
  "cv_block a st = st\<lparr>asleep := List.insert a (asleep st)\<rparr>"

definition cv_notify_one :: "run_state \<Rightarrow> run_state" where
  "cv_notify_one st = st\<lparr>notified := asleep st\<rparr>"

definition cv_notify_all :: "run_state \<Rightarrow> run_state" where
  "cv_notify_all st = st\<lparr>asleep := [], notified := []\<rparr>"

definition cv_wake :: "thread_id \<Rightarrow> run_state \<Rightarrow> run_state" where
  "cv_wake a st = st\<lparr>asleep := removeAll a (asleep st)\<rparr>"

definition cv_deliver :: "thread_id \<Rightarrow> run_state \<Rightarrow> run_state" where
  "cv_deliver a st =
     (if a \<in> set (notified st) then cv_wake a (st\<lparr>notified := []\<rparr>) else st)"

text \<open>The assignment of a program counter to the thread at position \<open>k\<close>.\<close>

definition set_pc :: "nat \<Rightarrow> producer_pc \<Rightarrow> run_state \<Rightarrow> run_state" where
  "set_pc k p st = st\<lparr>threads := (threads st)[k := (threads st ! k)\<lparr>pc := p\<rparr>]\<rparr>"

definition producer_step :: "Scenario \<Rightarrow> bool \<Rightarrow> nat \<Rightarrow> run_state \<Rightarrow> run_state" where
  "producer_step scenario record_latency k st =
     (if k < length (threads st) then
        (let th = threads st ! k in
         case pc th of
           AtEntry \<Rightarrow>
             (let st1 = emit (EvReady k)
                    (st\<lparr>ready := ready st + 1,
                        threads := (threads st)
                          [k := th\<lparr>message := make_message (message_bytes scenario) (idx th),
                                   pc := (if start_flag st then Loop 0 else Waiting)\<rparr>]\<rparr>);
                  st2 = (if ready st1 = producers scenario then cv_notify_one st1 else st1)
              in if start_flag st then st2 else cv_block (Producing k) st2)
         | Waiting \<Rightarrow>
             (if Producing k \<in> set (asleep st) then st
              else if start_flag st then set_pc k (Loop 0) st
              else cv_block (Producing k) st)
         | Loop n \<Rightarrow>
             (if n < per_thread st ! unat (idx th) then
                (case recorder_begin (recorder st) record_latency (now st) of
                   Some (token, r) \<Rightarrow>
                     emit (EvBegin k record_latency)
                       (set_pc k (Logging n token) (st\<lparr>recorder := r\<rparr>))
                 | None \<Rightarrow> set_pc k Crashed st)
              else set_pc k Finished st)
         | Logging n token \<Rightarrow>
             emit (EvLog k (message th))
               (adapter_log token (message th) (set_pc k (Loop (n + 1)) st))
         | Finished \<Rightarrow> st
         | Crashed \<Rightarrow> st)
      else st)"

text \<open>
  The controlling thread:
  \<^verbatim>\<open>for (std::size_t i = 0; i < scenario.producers; ++i) {
      threads.emplace_back([&, i]() { ... });
  }
  std::chrono::steady_clock::time_point t0;
  {
      std::unique_lock<std::mutex> lk(start_mx);
      start_cv.wait(lk, [&]{ return ready == scenario.producers; });
      if (measure_duration) t0 = std::chrono::steady_clock::now();
      start_flag = true;
      start_cv.notify_all();
  }
  for (auto& th : threads) th.join();
  adapter.flush();
  if (!measure_duration) return std::chrono::nanoseconds(0);
  auto t1 = std::chrono::steady_clock::now();
  return std::chrono::duration_cast<std::chrono::nanoseconds>(t1 - t0);\<close>
  It is at \<open>Spawning i\<close> in the spawning loop, at \<open>WaitReady\<close> in the wait for
  \<open>ready == scenario.producers\<close>: about to test the predicate, or blocked after it has
  found it false. It leaves the wait by taking the start timestamp, setting \<open>start_flag\<close>
  and calling \<open>notify_all\<close>. It is at \<open>Joining k\<close> in the joins, in the order of the vector
  \<open>threads\<close>, which it leaves by \<open>adapter.flush()\<close>, at \<open>AfterFlush\<close> before the
  computation of the result and at \<open>Returned d\<close> once it has returned \<open>d\<close>.
\<close>

definition main_step :: "Scenario \<Rightarrow> bool \<Rightarrow> run_state \<Rightarrow> run_state" where
  "main_step scenario measure_duration st =
     (case ctl st of
        Spawning i \<Rightarrow>
          (if i < producers scenario then
             emit (EvSpawn (unat i))
               (st\<lparr>threads := threads st @ [\<lparr>idx = i, message = [], pc = AtEntry\<rparr>],
                   ctl := Spawning (i + 1)\<rparr>)
           else st\<lparr>ctl := WaitReady\<rparr>)
      | WaitReady \<Rightarrow>
          (if Controlling \<in> set (asleep st) then st
           else if ready st = producers scenario then
             (let st1 = (if measure_duration then emit (EvT0 (now st)) (st\<lparr>t0 := now st\<rparr>)
                         else st)
              in cv_notify_all (emit EvStartFlag (st1\<lparr>start_flag := True, ctl := Joining 0\<rparr>)))
           else cv_block Controlling st)
      | Joining k \<Rightarrow>
          (if k < length (threads st) then
             (if pc (threads st ! k) = Finished
              then emit (EvJoin k) (st\<lparr>ctl := Joining (Suc k)\<rparr>)
              else st)
           else adapter_flush (emit EvFlush (st\<lparr>ctl := AfterFlush\<rparr>)))
      | AfterFlush \<Rightarrow>
          (if \<not> measure_duration then st\<lparr>ctl := Returned 0\<rparr>
           else emit (EvT1 (now st)) (st\<lparr>ctl := Returned (now st - t0 st)\<rparr>))
      | Returned d \<Rightarrow> st)"

text \<open>
  One step of the schedule: the time passes, then the actor moves: a thread, the consumer
  of the backend, or the condition variable waking a thread.
\<close>

definition step :: "Scenario \<Rightarrow> bool \<Rightarrow> bool \<Rightarrow> run_state \<Rightarrow> actor \<times> nat \<Rightarrow> run_state" where
  "step scenario record_latency measure_duration st a =
     (let st1 = st\<lparr>now := now st + int (snd a)\<rparr> in
      case fst a of
        Main \<Rightarrow> main_step scenario measure_duration st1
      | Producer k \<Rightarrow> producer_step scenario record_latency k st1
      | Sink \<Rightarrow> adapter_sink st1
      | Deliver a \<Rightarrow> cv_deliver a st1
      | Spurious a \<Rightarrow> cv_wake a st1)"

text \<open>
  The locals of \<open>run_workload\<close> before the spawning loop: the shares, \<open>start_flag = false\<close>,
  \<open>ready = 0\<close>, no thread yet, the default-constructed \<open>t0\<close>, and nobody waiting on
  \<open>start_cv\<close>.
\<close>

definition start_state :: "world \<Rightarrow> size_t list \<Rightarrow> run_state" where
  "start_state w shares =
     world.extend w
       (run_state.fields shares False 0 [] 0 (Spawning 0) [] [])"

definition exec ::
  "world \<Rightarrow> Scenario \<Rightarrow> size_t \<Rightarrow> bool \<Rightarrow> bool \<Rightarrow> schedule \<Rightarrow> run_state" where
  "exec w scenario n_messages record_latency measure_duration sched =
     foldl (step scenario record_latency measure_duration)
       (start_state (emit (EvRun n_messages record_latency measure_duration) w)
          (distribute n_messages (producers scenario)))
       sched"

text \<open>
  \<^verbatim>\<open>if (scenario.producers == 0) {
      adapter.flush();
      return std::chrono::nanoseconds(0);
  }\<close>
  and otherwise the threads above, from the state \<open>start_state\<close> with the shares
  distributed. \<open>exec\<close> is the state the schedule leads to; \<open>run_workload\<close> returns the
  duration, or \<open>None\<close> when the schedule ends before the controlling thread has returned,
  with the world as the schedule leaves it.
\<close>

definition run_workload ::
  "world \<Rightarrow> Scenario \<Rightarrow> size_t \<Rightarrow> bool \<Rightarrow> bool \<Rightarrow> schedule \<Rightarrow> int option \<times> world" where
  "run_workload w scenario n_messages record_latency measure_duration sched =
     (if producers scenario = 0 then
        (Some 0,
         adapter_flush
           (emit EvFlush (emit (EvRun n_messages record_latency measure_duration) w)))
      else
        (let st = exec w scenario n_messages record_latency measure_duration sched
         in (case ctl st of Returned d \<Rightarrow> Some d | _ \<Rightarrow> None, world.truncate st)))"

subsection \<open>execute_scenario\<close>

text \<open>
  \<^verbatim>\<open>LatencyRecorder recorder(scenario.total_messages);
  adapter.prepare(scenario, recorder);
  run_workload(adapter, recorder, scenario, warmup_messages, false, false);
  const auto dur = run_workload(adapter, recorder, scenario, scenario.total_messages, true, true);
  const auto sum = recorder.finalize();
  double thr = 0.0;
  if (dur.count() > 0) {
      const double sec = static_cast<double>(dur.count()) / 1'000'000'000.0;
      thr = static_cast<double>(scenario.total_messages) / sec;
  }
  return ScenarioResult{sum, thr, dur};\<close>
  The arithmetic on \<open>double\<close> is a parameter: the constant \<open>0.0\<close>, the conversions of
  \<open>static_cast<double>\<close> from \<open>std::size_t\<close> and from the count of nanoseconds, the
  constant \<open>1'000'000'000.0\<close> and the division. The console output of the function is
  left out. The function takes a schedule for each of its two passes and returns \<open>None\<close>
  when one of them does not return.
\<close>

record 'f double_ops =
  fp_zero :: 'f
  fp_billion :: 'f
  fp_of_size :: "size_t \<Rightarrow> 'f"
  fp_of_count :: "int \<Rightarrow> 'f"
  fp_div :: "'f \<Rightarrow> 'f \<Rightarrow> 'f"

record 'f ScenarioResult =
  summary :: Summary
  throughput :: 'f
  duration :: int

definition execute_scenario ::
  "'f double_ops \<Rightarrow> world \<Rightarrow> Scenario \<Rightarrow> size_t \<Rightarrow> schedule \<Rightarrow> schedule
    \<Rightarrow> ('f ScenarioResult \<times> world) option" where
  "execute_scenario fp w scenario warmup_messages sched_warmup sched_measured =
     (let w1 = emit (EvConstruct (total_messages scenario))
                 (w\<lparr>recorder := new_recorder (total_messages scenario)\<rparr>);
          w2 = emit EvPrepare (adapter_prepare scenario w1)
      in case run_workload w2 scenario warmup_messages False False sched_warmup of
           (None, w3) \<Rightarrow> None
         | (Some d, w3) \<Rightarrow>
             (case run_workload w3 scenario (total_messages scenario) True True
                     sched_measured of
                (None, w4) \<Rightarrow> None
              | (Some dur, w4) \<Rightarrow>
                  (let sum = recorder_finalize (recorder w4);
                       w5 = emit EvFinalize w4;
                       thr = (if 0 < dur then
                                (let sec = fp_div fp (fp_of_count fp dur) (fp_billion fp)
                                 in fp_div fp (fp_of_size fp (total_messages scenario)) sec)
                              else fp_zero fp)
                   in Some (\<lparr>summary = sum, throughput = thr, duration = dur\<rparr>, w5))))"

section \<open>Notions used in the statements and proofs\<close>

subsection \<open>Events of a run\<close>

text \<open>
  The events a call of \<open>run_workload\<close> on the world \<open>w\<close> has added to the trace of the
  world \<open>w'\<close> it returns, after the entry event \<open>EvRun\<close>.
\<close>

definition run_events :: "world \<Rightarrow> world \<Rightarrow> event list" where
  "run_events w w' = drop (Suc (length (trace w))) (trace w')"

text \<open>
  The calls a producer makes in its loop: \<open>recorder.begin\<close> and \<open>adapter.log\<close>.
\<close>

definition is_work :: "event \<Rightarrow> bool" where
  "is_work e = (case e of EvBegin k r \<Rightarrow> True | EvLog k msg \<Rightarrow> True | _ \<Rightarrow> False)"



subsection \<open>Invariants of the barrier and of the joins\<close>

text \<open>
  The shape of the threads: at most \<open>producers\<close> of them, the thread at position \<open>k\<close>
  has captured the index \<open>k\<close>, the spawning loop has spawned \<open>i\<close> threads when its index is
  \<open>i\<close>, \<open>ready\<close> counts the threads past their increment, \<open>start_flag\<close> is set exactly
  once the controlling thread has left its wait, and only then has a producer left the
  barrier.
\<close>

definition inv_threads :: "Scenario \<Rightarrow> run_state \<Rightarrow> bool" where
  "inv_threads sc st \<longleftrightarrow>
     length (threads st) \<le> unat (producers sc) \<and>
     (\<forall>k<length (threads st). idx (threads st ! k) = of_nat k) \<and>
     (\<forall>i. ctl st = Spawning i \<longrightarrow> unat i = length (threads st)) \<and>
     ((\<forall>i. ctl st \<noteq> Spawning i) \<longrightarrow> length (threads st) = unat (producers sc)) \<and>
     unat (ready st) = length (filter (\<lambda>th. pc th \<noteq> AtEntry) (threads st)) \<and>
     (start_flag st \<longleftrightarrow> (\<forall>i. ctl st \<noteq> Spawning i) \<and> ctl st \<noteq> WaitReady) \<and>
     (\<forall>k<length (threads st).
        pc (threads st ! k) \<noteq> AtEntry \<and> pc (threads st ! k) \<noteq> Waiting \<longrightarrow> start_flag st) \<and>
     (start_flag st \<longrightarrow> (\<forall>k<length (threads st). pc (threads st ! k) \<noteq> AtEntry))"

text \<open>
  A producer past its increment of \<open>ready\<close> has its \<open>EvReady\<close> in the trace and holds the
  message \<open>make_message\<close> builds for its index; every logged payload is such a message.
\<close>

definition inv_msgs :: "Scenario \<Rightarrow> nat \<Rightarrow> run_state \<Rightarrow> bool" where
  "inv_msgs sc m st \<longleftrightarrow>
     m \<le> length (trace st) \<and>
     (\<forall>k<length (threads st). pc (threads st ! k) \<noteq> AtEntry \<longrightarrow>
        EvReady k \<in> set (drop m (trace st)) \<and>
        message (threads st ! k) = make_message (message_bytes sc) (of_nat k)) \<and>
     (\<forall>k msg. EvLog k msg \<in> set (drop m (trace st)) \<longrightarrow>
        msg = make_message (message_bytes sc) (of_nat k))"

text \<open>
  The start barrier on the trace: once \<open>start_flag\<close> is set, the events of the run split at
  \<open>EvStartFlag\<close>, and before it lie the increments of all producers, the start timestamp
  (when measuring) and no call of \<open>begin\<close> or \<open>log\<close>; before it is set, no such call has
  happened.
\<close>

definition inv_start :: "Scenario \<Rightarrow> bool \<Rightarrow> nat \<Rightarrow> run_state \<Rightarrow> bool" where
  "inv_start sc md m st \<longleftrightarrow>
     (if start_flag st then
        \<exists>a b. drop m (trace st) = a @ EvStartFlag # b \<and>
          (\<forall>i<unat (producers sc). EvReady i \<in> set a) \<and>
          (md \<longrightarrow> EvT0 (t0 st) \<in> set a) \<and>
          (\<forall>x\<in>set a. \<not> is_work x)
      else \<forall>x\<in>set (drop m (trace st)). \<not> is_work x)"

text \<open>
  What precedes the flush: the joins of all producers, no flush, no end timestamp, and
  the start timestamp when measuring.
\<close>

definition joined_before :: "Scenario \<Rightarrow> bool \<Rightarrow> run_state \<Rightarrow> event list \<Rightarrow> bool" where
  "joined_before sc md st a \<longleftrightarrow>
     (\<forall>j<unat (producers sc). EvJoin j \<in> set a) \<and>
     EvFlush \<notin> set a \<and> (\<forall>t. EvT1 t \<notin> set a) \<and>
     (md \<longrightarrow> EvT0 (t0 st) \<in> set a)"

text \<open>
  The end of the run on the trace: no flush and no end timestamp before the joins are
  done; while joining thread \<open>k\<close>, the threads before it are finished and joined; after the
  flush all threads are finished and the events end with the flush, followed once the
  function has returned \<open>d\<close> by the end timestamp \<open>t0 + d\<close> when measuring; and without
  measuring the returned duration is 0.
\<close>

definition inv_join :: "Scenario \<Rightarrow> bool \<Rightarrow> nat \<Rightarrow> run_state \<Rightarrow> bool" where
  "inv_join sc md m st \<longleftrightarrow>
     (ctl st \<noteq> AfterFlush \<and> (\<forall>d. ctl st \<noteq> Returned d) \<longrightarrow>
        EvFlush \<notin> set (drop m (trace st)) \<and> (\<forall>t. EvT1 t \<notin> set (drop m (trace st)))) \<and>
     (\<forall>k. ctl st = Joining k \<longrightarrow>
        k \<le> length (threads st) \<and>
        (\<forall>j<k. EvJoin j \<in> set (drop m (trace st)) \<and> pc (threads st ! j) = Finished)) \<and>
     (ctl st = AfterFlush \<or> (\<exists>d. ctl st = Returned d) \<longrightarrow>
        (\<forall>j<length (threads st). pc (threads st ! j) = Finished)) \<and>
     (ctl st = AfterFlush \<longrightarrow>
        (\<exists>a. drop m (trace st) = a @ [EvFlush] \<and> joined_before sc md st a)) \<and>
     (\<forall>d. ctl st = Returned d \<longrightarrow>
        (\<exists>a. drop m (trace st) = a @ EvFlush # (if md then [EvT1 (t0 st + d)] else []) \<and>
             joined_before sc md st a) \<and>
        (\<not> md \<longrightarrow> d = 0))"

text \<open>
  The invariants of the barrier and of the joins together.
\<close>

definition inv_all :: "Scenario \<Rightarrow> bool \<Rightarrow> nat \<Rightarrow> run_state \<Rightarrow> bool" where
  "inv_all sc md m st \<longleftrightarrow>
     inv_threads sc st \<and> inv_msgs sc m st \<and> inv_start sc md m st \<and> inv_join sc md m st"

subsection \<open>Invariants of the recorder\<close>

text \<open>
  The number of \<open>begin\<close> calls a producer has made, read off its program counter.
\<close>

definition begun :: "size_t list \<Rightarrow> producer \<Rightarrow> nat" where
  "begun q th =
     (case pc th of
        Loop n \<Rightarrow> unat n
      | Logging n token \<Rightarrow> Suc (unat n)
      | Finished \<Rightarrow> unat (q ! unat (idx th))
      | _ \<Rightarrow> 0)"

text \<open>
  Producer \<open>k\<close> holds the token: it is between \<open>begin\<close> and \<open>log\<close>.
\<close>

definition holding :: "producer list \<Rightarrow> nat \<Rightarrow> Token \<Rightarrow> bool" where
  "holding ths k token \<longleftrightarrow> k < length ths \<and> (\<exists>n. pc (ths ! k) = Logging n token)"

text \<open>
  A token is outstanding while a producer holds it or the adapter has not processed it.
\<close>

definition outstanding :: "producer list \<Rightarrow> Token list \<Rightarrow> Token \<Rightarrow> bool" where
  "outstanding ths pend token \<longleftrightarrow> (\<exists>k. holding ths k token) \<or> token \<in> set pend"

text \<open>
  The recorder during a recording run: the counter is the number of \<open>begin\<close> calls made;
  no producer exceeds its share or has crashed; the shares fit the capacity; an
  outstanding token records, its slot is claimed and has no end timestamp; a claimed slot
  has its start timestamp, and its end timestamp unless its token is outstanding; and no
  two outstanding tokens share a slot.
\<close>

definition rec_ok :: "size_t list \<Rightarrow> producer list \<Rightarrow> Token list \<Rightarrow> LatencyRecorder \<Rightarrow> bool" where
  "rec_ok q ths pend R \<longleftrightarrow>
     next_slot R = sum_list (map (begun q) ths) \<and>
     (\<forall>k<length ths. unat (idx (ths ! k)) = k \<and> begun q (ths ! k) \<le> unat (q ! k) \<and>
        pc (ths ! k) \<noteq> Crashed \<and>
        (\<forall>n token. pc (ths ! k) = Logging n token \<longrightarrow> unat n < unat (q ! k))) \<and>
     length ths \<le> length q \<and>
     sum_list (map unat q) \<le> length (slots R) \<and>
     (\<forall>token. outstanding ths pend token \<longrightarrow>
        recording token \<and> slot token < next_slot R \<and> t_end (slots R ! slot token) = None) \<and>
     (\<forall>j<next_slot R. t_start (slots R ! j) \<noteq> None \<and>
        (t_end (slots R ! j) = None \<longrightarrow> (\<exists>token. outstanding ths pend token \<and> slot token = j))) \<and>
     (\<forall>k k' token token'. holding ths k token \<and> holding ths k' token' \<and> k \<noteq> k' \<longrightarrow>
        slot token \<noteq> slot token') \<and>
     distinct (map slot pend) \<and>
     (\<forall>k token. holding ths k token \<longrightarrow> slot token \<notin> slot ` set pend)"

text \<open>
  \<open>rec_ok\<close> on a state of the run.
\<close>

definition inv_rec :: "run_state \<Rightarrow> bool" where
  "inv_rec st \<longleftrightarrow> rec_ok (per_thread st) (threads st) (pending (adapter st)) (recorder st)"

text \<open>
  The recorder during a run without recording: of the recorder \<open>R0\<close> the run started
  with only the counter has changed, by the number of \<open>begin\<close> calls made; no producer
  exceeds its share or has crashed; and no token in flight records.
\<close>

definition inv_idle :: "LatencyRecorder \<Rightarrow> run_state \<Rightarrow> bool" where
  "inv_idle R0 st \<longleftrightarrow>
     recorder st =
       R0\<lparr>next_slot := next_slot R0 + sum_list (map (begun (per_thread st)) (threads st))\<rparr> \<and>
     (\<forall>k<length (threads st).
        unat (idx (threads st ! k)) = k \<and>
        begun (per_thread st) (threads st ! k) \<le> unat (per_thread st ! k) \<and>
        pc (threads st ! k) \<noteq> Crashed \<and>
        (\<forall>n token. pc (threads st ! k) = Logging n token \<longrightarrow>
           \<not> recording token \<and> unat n < unat (per_thread st ! k))) \<and>
     length (threads st) \<le> length (per_thread st) \<and>
     (\<forall>token\<in>set (pending (adapter st)). \<not> recording token)"

text \<open>
  The counter during a recording run that started with the counter at \<open>a\<close>: it has advanced
  by at least the \<open>begin\<close> calls of the producers that have not crashed, and once it has
  advanced it is within the capacity, since a recording \<open>begin\<close> succeeds only on a free
  slot.
\<close>

definition inv_claimed :: "nat \<Rightarrow> run_state \<Rightarrow> bool" where
  "inv_claimed a st \<longleftrightarrow>
     a + sum_list (map (begun (per_thread st)) (threads st)) \<le> next_slot (recorder st) \<and>
     (a < next_slot (recorder st) \<longrightarrow>
        next_slot (recorder st) \<le> length (slots (recorder st)))"

text \<open>
  After the flush the adapter has nothing outstanding.
\<close>

definition inv_drained :: "run_state \<Rightarrow> bool" where
  "inv_drained st \<longleftrightarrow>
     (ctl st = AfterFlush \<or> (\<exists>d. ctl st = Returned d) \<longrightarrow> pending (adapter st) = [])"

subsection \<open>Progress of a run\<close>

text \<open>
  The number of steps a producer still has to take.
\<close>

definition thread_rank :: "size_t list \<Rightarrow> producer \<Rightarrow> nat" where
  "thread_rank q th =
     (let share = unat (q ! unat (idx th)) in
      case pc th of
        AtEntry \<Rightarrow> 2 * share + 3
      | Waiting \<Rightarrow> 2 * share + 2
      | Loop n \<Rightarrow> 2 * (share - unat n) + 1
      | Logging n token \<Rightarrow> 2 * (share - unat n)
      | Finished \<Rightarrow> 0
      | Crashed \<Rightarrow> 0)"

text \<open>
  The steps all spawned producers still have to take.
\<close>

definition work_left :: "run_state \<Rightarrow> nat" where
  "work_left st = sum_list (map (thread_rank (per_thread st)) (threads st))"

text \<open>
  The steps the controlling thread still has to take.
\<close>

definition main_rank :: "Scenario \<Rightarrow> run_state \<Rightarrow> nat" where
  "main_rank sc st =
     (case ctl st of
        Spawning i \<Rightarrow> 2 * unat (producers sc) + 4 - unat i
      | WaitReady \<Rightarrow> unat (producers sc) + 3
      | Joining k \<Rightarrow> unat (producers sc) + 2 - k
      | AfterFlush \<Rightarrow> 1
      | Returned d \<Rightarrow> 0)"

text \<open>
  No producer has crashed, and a producer holding a token is within its share.
\<close>

definition inv_live :: "run_state \<Rightarrow> bool" where
  "inv_live st \<longleftrightarrow>
     (\<forall>k<length (threads st).
        pc (threads st ! k) \<noteq> Crashed \<and>
        (\<forall>n token. pc (threads st ! k) = Logging n token \<longrightarrow>
           n < per_thread st ! unat (idx (threads st ! k))))"

text \<open>
  The order in which every useful step descends: first the controlling thread's rank,
  then the producers' work.
\<close>

definition rank_order :: "((nat \<times> nat) \<times> (nat \<times> nat)) set" where
  "rank_order = less_than <*lex*> less_than"

text \<open>
  The rank of a state under \<open>rank_order\<close>.
\<close>

definition rank :: "Scenario \<Rightarrow> run_state \<Rightarrow> nat \<times> nat" where
  "rank sc st = (main_rank sc st, work_left st)"

text \<open>
  The invariants of a run under which it can be completed: those of the barrier and the
  joins, with those of the recorder for a recording run.
\<close>

definition inv_run :: "Scenario \<Rightarrow> bool \<Rightarrow> bool \<Rightarrow> nat \<Rightarrow> run_state \<Rightarrow> bool" where
  "inv_run sc r md m st \<longleftrightarrow>
     inv_all sc md m st \<and>
     (if r then inv_rec st \<and> length (per_thread st) = unat (producers sc) else inv_live st)"

text \<open>
  The action of a wait that returns with no notification.
\<close>

definition is_spurious :: "actor \<Rightarrow> bool" where
  "is_spurious a = (case a of Spurious b \<Rightarrow> True | _ \<Rightarrow> False)"

text \<open>
  A schedule under which no wait wakes spuriously.
\<close>

definition no_spurious :: "schedule \<Rightarrow> bool" where
  "no_spurious sched = list_all (\<lambda>e. \<not> is_spurious (fst e)) sched"

text \<open>
  The controlling thread has not blocked in its wait, and no thread is blocked once
  \<open>start_flag\<close> is set.
\<close>

definition inv_awake :: "run_state \<Rightarrow> bool" where
  "inv_awake st \<longleftrightarrow> Controlling \<notin> set (asleep st) \<and> (start_flag st \<longrightarrow> asleep st = [])"

subsection \<open>A lost wake-up\<close>

text \<open>
  The controlling thread and every producer are blocked on \<open>start_cv\<close>, and no
  notification is pending.
\<close>

definition all_asleep :: "run_state \<Rightarrow> bool" where
  "all_asleep st \<longleftrightarrow>
     ctl st = WaitReady \<and> Controlling \<in> set (asleep st) \<and> notified st = [] \<and>
     (\<forall>k<length (threads st).
        pc (threads st ! k) = Waiting \<and> Producing k \<in> set (asleep st))"

text \<open>
  A schedule for two producers: the controlling thread spawns them and blocks in its
  wait; producer 0 arrives and blocks; producer 1 arrives and calls \<open>notify_one\<close>; the
  notification goes to producer 0, which tests \<open>start_flag\<close> and blocks again.
\<close>

definition lost_wakeup :: schedule where
  "lost_wakeup =
     [(Main, 1), (Main, 1), (Main, 1), (Main, 1), (Producer 0, 1), (Producer 1, 1),
      (Deliver (Producing 0), 1), (Producer 0, 1)]"

subsection \<open>A concrete scenario\<close>

text \<open>
  A scenario with two producers and three messages of three bytes.
\<close>

definition demo_scenario :: Scenario where
  "demo_scenario =
     \<lparr>async = True, sink = Null, producers = 2, message_bytes = 3, total_messages = 3\<rparr>"

text \<open>
  A world with an asynchronous adapter and a recorder of three slots.
\<close>

definition demo_world :: world where
  "demo_world =
     \<lparr>adapter = \<lparr>is_async = True, pending = []\<rparr>, recorder = new_recorder 3, now = 0,
      trace = []\<rparr>"

text \<open>
  A schedule under which a run of \<open>demo_scenario\<close> completes: the threads are
  spawned, both producers arrive, the controlling thread releases them, each producer
  works off its share, the sink moves once, and the controlling thread joins, flushes and
  returns.
\<close>

definition demo_schedule :: schedule where
  "demo_schedule =
     [(Main, 1), (Main, 1), (Main, 1), (Producer 0, 1), (Producer 1, 1), (Main, 1),
      (Producer 0, 2), (Producer 0, 2), (Producer 0, 2), (Producer 0, 2), (Producer 0, 2),
      (Producer 0, 2), (Producer 1, 2), (Producer 1, 2), (Producer 1, 2), (Producer 1, 2),
      (Sink, 1), (Main, 5), (Main, 5), (Main, 5), (Main, 5)]"


text \<open>
  A continuation in which every thread and the consumer are scheduled again and the
  condition variable has nothing to deliver.
\<close>

definition demo_rest :: schedule where
  "demo_rest =
     [(Main, 5), (Producer 0, 2), (Producer 1, 2), (Sink, 1), (Deliver Controlling, 1),
      (Deliver (Producing 1), 1), (Main, 5)]"

text \<open>
  An environment that sets two of the three variables the driver reads.
\<close>

definition demo_getenv :: environ where
  "demo_getenv = [''LOGIT_BENCH_TOTAL'' \<mapsto> ''500'', ''LOGIT_BENCH_WARMUP'' \<mapsto> ''many'']"

text \<open>
  A stand-in for \<open>std::stoull\<close> on the two values of \<open>demo_getenv\<close>.
\<close>

definition demo_stoull :: "string \<Rightarrow> exn + 64 word" where
  "demo_stoull v = (if v = ''500'' then Inr 500 else Inl Invalid_argument)"











section \<open>Properties\<close>

subsection \<open>The condition variable\<close>

lemmas cv_defs = cv_block_def cv_notify_one_def cv_notify_all_def cv_wake_def cv_deliver_def

lemma cv_frame [simp]:
  "adapter (cv_block a st) = adapter st"
  "recorder (cv_block a st) = recorder st"
  "now (cv_block a st) = now st"
  "trace (cv_block a st) = trace st"
  "per_thread (cv_block a st) = per_thread st"
  "start_flag (cv_block a st) = start_flag st"
  "ready (cv_block a st) = ready st"
  "threads (cv_block a st) = threads st"
  "t0 (cv_block a st) = t0 st"
  "ctl (cv_block a st) = ctl st"
  "adapter (cv_notify_one st) = adapter st"
  "recorder (cv_notify_one st) = recorder st"
  "now (cv_notify_one st) = now st"
  "trace (cv_notify_one st) = trace st"
  "per_thread (cv_notify_one st) = per_thread st"
  "start_flag (cv_notify_one st) = start_flag st"
  "ready (cv_notify_one st) = ready st"
  "threads (cv_notify_one st) = threads st"
  "t0 (cv_notify_one st) = t0 st"
  "ctl (cv_notify_one st) = ctl st"
  "adapter (cv_notify_all st) = adapter st"
  "recorder (cv_notify_all st) = recorder st"
  "now (cv_notify_all st) = now st"
  "trace (cv_notify_all st) = trace st"
  "per_thread (cv_notify_all st) = per_thread st"
  "start_flag (cv_notify_all st) = start_flag st"
  "ready (cv_notify_all st) = ready st"
  "threads (cv_notify_all st) = threads st"
  "t0 (cv_notify_all st) = t0 st"
  "ctl (cv_notify_all st) = ctl st"
  "adapter (cv_wake a st) = adapter st"
  "recorder (cv_wake a st) = recorder st"
  "now (cv_wake a st) = now st"
  "trace (cv_wake a st) = trace st"
  "per_thread (cv_wake a st) = per_thread st"
  "start_flag (cv_wake a st) = start_flag st"
  "ready (cv_wake a st) = ready st"
  "threads (cv_wake a st) = threads st"
  "t0 (cv_wake a st) = t0 st"
  "ctl (cv_wake a st) = ctl st"
  "adapter (cv_deliver a st) = adapter st"
  "recorder (cv_deliver a st) = recorder st"
  "now (cv_deliver a st) = now st"
  "trace (cv_deliver a st) = trace st"
  "per_thread (cv_deliver a st) = per_thread st"
  "start_flag (cv_deliver a st) = start_flag st"
  "ready (cv_deliver a st) = ready st"
  "threads (cv_deliver a st) = threads st"
  "t0 (cv_deliver a st) = t0 st"
  "ctl (cv_deliver a st) = ctl st"
  by (simp_all add: cv_defs)

lemma cv_truncate [simp]:
  "world.truncate (cv_block a st) = world.truncate st"
  "world.truncate (cv_notify_one st) = world.truncate st"
  "world.truncate (cv_notify_all st) = world.truncate st"
  "world.truncate (cv_wake a st) = world.truncate st"
  "world.truncate (cv_deliver a st) = world.truncate st"
  by (simp_all add: cv_defs world.defs)

lemma inv_threads_cv [simp]:
  "inv_threads sc (cv_block a st) = inv_threads sc st"
  "inv_threads sc (cv_notify_one st) = inv_threads sc st"
  "inv_threads sc (cv_notify_all st) = inv_threads sc st"
  "inv_threads sc (cv_wake a st) = inv_threads sc st"
  "inv_threads sc (cv_deliver a st) = inv_threads sc st"
  by (simp_all add: inv_threads_def)

subsection \<open>Successors of machine integers\<close>

lemma unat_succ_below: "(i::size_t) < n \<Longrightarrow> unat (i + 1) = Suc (unat i)"
proof -
  assume lt: "i < n"
  then have "unat i < unat n" by (simp add: word_less_nat_alt)
  moreover have "unat n < 2 ^ 64" using unsigned_less [of n, where ?'a = nat] by simp
  ultimately have "unat i + unat (1::size_t) < 2 ^ LENGTH(64)" by simp
  then have "unat (i + 1) = unat i + unat (1::size_t)" by (simp only: unat_add_lem)
  then show ?thesis by simp
qed

lemma unat_succ_below_nat: "unat (i::size_t) < unat (n::size_t) \<Longrightarrow> unat (i + 1) = Suc (unat i)"
  by (rule unat_succ_below [of i n]) (simp add: word_less_nat_alt)

subsection \<open>The shares\<close>

declare distribute_loop.simps [simp del]

lemma distribute_loop_length:
  "length (distribute_loop P b i r xs) = length xs"
proof (induction P b i r xs rule: distribute_loop.induct)
  case (1 P b i r xs)
  show ?case
  proof (cases "i < P")
    case True
    with 1 show ?thesis by (subst distribute_loop.simps) simp
  next
    case False
    then show ?thesis by (subst distribute_loop.simps) simp
  qed
qed

lemma distribute_loop_nth:
  "length xs = unat P \<Longrightarrow> i \<le> P \<Longrightarrow> k < unat P \<Longrightarrow>
   distribute_loop P b i r xs ! k =
     (if k < unat i then xs ! k else b + (if k - unat i < unat r then 1 else 0))"
proof (induction P b i r xs rule: distribute_loop.induct)
  case (1 P b i r xs)
  show ?case
  proof (cases "i < P")
    case True
    let ?v = "b + (if r \<noteq> 0 then 1 else 0)"
    let ?r' = "if r \<noteq> 0 then r - 1 else r"
    have suc: "unat (i + 1) = Suc (unat i)" using True by (rule unat_succ_below)
    have le: "i + 1 \<le> P" using True by (rule inc_le)
    have iP: "unat i < unat P" using True by (simp add: word_less_nat_alt)
    have IH: "distribute_loop P b (i + 1) ?r' (xs[unat i := ?v]) ! k =
        (if k < unat (i + 1) then xs[unat i := ?v] ! k
         else b + (if k - unat (i + 1) < unat ?r' then 1 else 0))"
      using "1.IH" [OF True _ le "1.prems"(3)] "1.prems"(1) by simp
    have unf: "distribute_loop P b i r xs = distribute_loop P b (i + 1) ?r' (xs[unat i := ?v])"
      using True by (subst distribute_loop.simps) simp
    consider "k < unat i" | "k = unat i" | "unat i < k" by linarith
    then show ?thesis
    proof cases
      case 1
      then show ?thesis unfolding unf IH suc by simp
    next
      case 2
      then show ?thesis unfolding unf IH suc using iP "1.prems"(1)
        by (simp add: unat_gt_0)
    next
      case 3
      show ?thesis
      proof (cases "r = 0")
        case True
        then show ?thesis unfolding unf IH suc using 3 by simp
      next
        case False
        then have "unat ?r' = unat r - 1" "0 < unat r"
          by (simp_all add: unat_minus_one unat_gt_0)
        then show ?thesis unfolding unf IH suc using 3 False by auto
      qed
    qed
  next
    case False
    with "1.prems" have "i = P" by simp
    with "1.prems" show ?thesis by (subst distribute_loop.simps) simp
  qed
qed

lemma distribute_length: "length (distribute n P) = unat P"
  by (simp add: distribute_def distribute_loop_length)

lemma distribute_nth:
  "k < unat P \<Longrightarrow>
   distribute n P ! k = n div P + (if k < unat (n mod P) then 1 else 0)"
  by (simp add: distribute_def distribute_loop_nth)

lemma sum_extra: "r \<le> p \<Longrightarrow> (\<Sum>k = 0..<p. b + (if k < r then 1 else 0)) = p * b + (r::nat)"
proof (induction p arbitrary: r)
  case 0
  then show ?case by simp
next
  case (Suc p)
  show ?case
  proof (cases "r \<le> p")
    case True
    with Suc.IH [of r] show ?thesis by simp
  next
    case False
    with Suc.prems have r: "r = Suc p" by simp
    have "(\<Sum>k = 0..<p. b + (if k < r then 1 else 0)) = (\<Sum>k = 0..<p. b + (if k < p then 1 else 0))"
      by (rule sum.cong) (auto simp: r)
    also have "\<dots> = p * b + p" using Suc.IH [of p] by simp
    finally show ?thesis by (simp add: r)
  qed
qed

lemma unat_share:
  assumes "P \<noteq> 0"
  shows "unat (n div P + (if k < unat (n mod P) then 1 else 0 :: size_t)) =
         unat n div unat P + (if k < unat n mod unat P then 1 else 0)"
proof (cases "k < unat (n mod P)")
  case False
  then show ?thesis by (simp add: unat_div unat_mod)
next
  case True
  then have r: "0 < unat n mod unat P" by (simp add: unat_mod)
  have p: "0 < unat P" using assms by (simp add: unat_gt_0)
  have "unat n = unat P * (unat n div unat P) + unat n mod unat P" by simp
  moreover have "unat n div unat P \<le> unat P * (unat n div unat P)" using p by simp
  ultimately have "unat n div unat P + 1 \<le> unat n" using r by linarith
  moreover have "unat n < 2 ^ 64" using unsigned_less [of n, where ?'a = nat] by simp
  ultimately have "unat (n div P) + unat (1::size_t) < 2 ^ LENGTH(64)"
    by (simp add: unat_div)
  then have "unat (n div P + 1) = unat (n div P) + unat (1::size_t)"
    by (simp only: unat_add_lem)
  with True show ?thesis by (simp add: unat_div unat_mod)
qed

lemma distribute_sum:
  assumes "P \<noteq> 0"
  shows "sum_list (map unat (distribute n P)) = unat n"
proof -
  have p: "0 < unat P" using assms by (simp add: unat_gt_0)
  have "sum_list (map unat (distribute n P)) = (\<Sum>k = 0..<unat P. unat (distribute n P ! k))"
    by (simp add: sum_list_sum_nth distribute_length)
  also have "\<dots> = (\<Sum>k = 0..<unat P. unat n div unat P + (if k < unat n mod unat P then 1 else 0))"
    by (rule sum.cong) (simp_all add: distribute_nth unat_share [OF assms])
  also have "\<dots> = unat P * (unat n div unat P) + unat n mod unat P"
    using p by (intro sum_extra) simp
  also have "\<dots> = unat n" by simp
  finally show ?thesis .
qed

subsection \<open>Invariants of the threads\<close>

lemma length_filter_update:
  "k < length xs \<Longrightarrow>
   length (filter P (xs[k := y])) + (if P (xs ! k) then 1 else 0) =
   length (filter P xs) + (if P y then 1 else 0)"
proof (induction xs arbitrary: k)
  case Nil
  then show ?case by simp
next
  case (Cons x xs)
  then show ?case by (cases k) auto
qed

lemma filter_all: "length (filter P xs) = length xs \<Longrightarrow> k < length xs \<Longrightarrow> P (xs ! k)"
proof -
  assume a: "length (filter P xs) = length xs" and k: "k < length xs"
  have "length (filter P xs) + length (filter (\<lambda>x. \<not> P x) xs) = length xs"
    by (rule sum_length_filter_compl)
  with a have "filter (\<lambda>x. \<not> P x) xs = []" by simp
  then have "\<forall>x\<in>set xs. P x" by (simp add: filter_empty_conv)
  with k show ?thesis by simp
qed

lemma filter_some_not: "k < length xs \<Longrightarrow> \<not> P (xs ! k) \<Longrightarrow> length (filter P xs) < length xs"
  by (metis filter_all le_neq_implies_less length_filter_le)

lemma inv_threadsD:
  assumes "inv_threads sc st"
  shows "length (threads st) \<le> unat (producers sc)"
    and "k < length (threads st) \<Longrightarrow> idx (threads st ! k) = of_nat k"
    and "ctl st = Spawning i \<Longrightarrow> unat i = length (threads st)"
    and "(\<And>i. ctl st \<noteq> Spawning i) \<Longrightarrow> length (threads st) = unat (producers sc)"
    and "unat (ready st) = length (filter (\<lambda>th. pc th \<noteq> AtEntry) (threads st))"
    and "start_flag st \<longleftrightarrow> (\<forall>i. ctl st \<noteq> Spawning i) \<and> ctl st \<noteq> WaitReady"
    and "k < length (threads st) \<Longrightarrow> pc (threads st ! k) \<noteq> AtEntry \<Longrightarrow>
           pc (threads st ! k) \<noteq> Waiting \<Longrightarrow> start_flag st"
    and "start_flag st \<Longrightarrow> k < length (threads st) \<Longrightarrow> pc (threads st ! k) \<noteq> AtEntry"
  using assms unfolding inv_threads_def by blast+

lemma inv_threads_start: "inv_threads sc (start_state w shares)"
  by (simp add: inv_threads_def start_state_def world.defs run_state.defs)

lemma inv_threads_main:
  assumes "inv_threads sc st"
  shows "inv_threads sc (main_step sc m st)"
proof (cases "ctl st")
  case (Spawning i)
  show ?thesis
  proof (cases "i < producers sc")
    case True
    have suc: "unat (i + 1) = Suc (unat i)" using True by (rule unat_succ_below)
    have lt: "unat i < unat (producers sc)" using True by (simp add: word_less_nat_alt)
    have "of_nat (length (threads st)) = i"
      using inv_threadsD(3) [OF assms Spawning, symmetric] by simp
    then show ?thesis using assms Spawning True lt
      by (auto simp: inv_threads_def main_step_def emit_def suc nth_append less_Suc_eq)
  next
    case False
    then have "unat (producers sc) \<le> unat i" by (simp add: word_less_nat_alt)
    then show ?thesis using assms Spawning False
      by (auto simp: inv_threads_def main_step_def)
  qed
next
  case WaitReady
  show ?thesis
  proof (cases "ready st = producers sc")
    case True
    with assms WaitReady have "length (filter (\<lambda>th. pc th \<noteq> AtEntry) (threads st)) = length (threads st)"
      by (auto simp: inv_threads_def)
    then have "\<forall>k<length (threads st). pc (threads st ! k) \<noteq> AtEntry"
      using filter_all [of "\<lambda>th. pc th \<noteq> AtEntry" "threads st"] by blast
    then show ?thesis using assms WaitReady True
      by (auto simp: inv_threads_def main_step_def emit_def Let_def)
  next
    case False
    then show ?thesis using assms WaitReady by (simp add: main_step_def)
  qed
next
  case (Joining k)
  then show ?thesis using assms
    by (auto simp: inv_threads_def main_step_def emit_def adapter_flush_def)
next
  case AfterFlush
  then show ?thesis using assms
    by (auto simp: inv_threads_def main_step_def emit_def)
next
  case (Returned d)
  then show ?thesis using assms by (simp add: main_step_def)
qed

lemma inv_threads_set_pc:
  assumes "inv_threads sc st" "k < length (threads st)" "pc (threads st ! k) \<noteq> AtEntry" "p \<noteq> AtEntry"
    "p \<noteq> Waiting \<longrightarrow> start_flag st"
  shows "inv_threads sc (set_pc k p st)"
proof -
  have "length (filter (\<lambda>th. pc th \<noteq> AtEntry) ((threads st)[k := (threads st ! k)\<lparr>pc := p\<rparr>])) =
        length (filter (\<lambda>th. pc th \<noteq> AtEntry) (threads st))"
    using length_filter_update [of k "threads st" "\<lambda>th. pc th \<noteq> AtEntry" "(threads st ! k)\<lparr>pc := p\<rparr>"] assms
    by simp
  then show ?thesis using assms
    by (auto simp: inv_threads_def set_pc_def nth_list_update)
qed

lemma inv_threads_world_update:
  "inv_threads sc (st\<lparr>recorder := r\<rparr>) = inv_threads sc st"
  "inv_threads sc (st\<lparr>now := t\<rparr>) = inv_threads sc st"
  "inv_threads sc (emit e st) = inv_threads sc st"
  "inv_threads sc (adapter_log tok msg st) = inv_threads sc st"
  "inv_threads sc (adapter_sink st) = inv_threads sc st"
  by (simp_all add: inv_threads_def emit_def adapter_log_def adapter_sink_def split: list.splits)

lemma inv_threads_producer:
  assumes "inv_threads sc st"
  shows "inv_threads sc (producer_step sc r k st)"
proof (cases "k < length (threads st)")
  case False
  then show ?thesis using assms by (simp add: producer_step_def)
next
  case k: True
  show ?thesis
  proof (cases "pc (threads st ! k)")
    case AtEntry
    have nf: "\<not> start_flag st" using inv_threadsD(8) [OF assms _ k] AtEntry by blast
    have "length (filter (\<lambda>th. pc th \<noteq> AtEntry) (threads st)) < length (threads st)"
      using filter_some_not [of k "threads st" "\<lambda>th. pc th \<noteq> AtEntry"] k AtEntry by simp
    then have "unat (ready st) < unat (producers sc)"
      using inv_threadsD(1,5) [OF assms] by simp
    then have suc: "unat (ready st + 1) = Suc (unat (ready st))" by (rule unat_succ_below_nat)
    have "length (filter (\<lambda>th. pc th \<noteq> AtEntry)
             ((threads st)[k := (threads st ! k)\<lparr>message := msg, pc := Waiting\<rparr>])) =
          Suc (length (filter (\<lambda>th. pc th \<noteq> AtEntry) (threads st)))" for msg
      using length_filter_update [of k "threads st" "\<lambda>th. pc th \<noteq> AtEntry"
          "(threads st ! k)\<lparr>message := msg, pc := Waiting\<rparr>"] k AtEntry by simp
    then show ?thesis using assms k AtEntry nf suc
      by (auto simp: inv_threads_def producer_step_def emit_def Let_def nth_list_update)
  next
    case Waiting
    then show ?thesis using assms k
      by (simp add: producer_step_def Let_def inv_threads_set_pc)
  next
    case (Loop n)
    then have "start_flag st" using inv_threadsD(7) [OF assms k] by simp
    with Loop show ?thesis using assms k
      by (auto simp: producer_step_def Let_def inv_threads_set_pc inv_threads_world_update
               split: option.splits)
  next
    case (Logging n tok)
    then have "start_flag st" using inv_threadsD(7) [OF assms k] by simp
    with Logging show ?thesis using assms k
      by (simp add: producer_step_def Let_def inv_threads_set_pc inv_threads_world_update)
  next
    case Finished
    then show ?thesis using assms k by (simp add: producer_step_def Let_def)
  next
    case Crashed
    then show ?thesis using assms k by (simp add: producer_step_def Let_def)
  qed
qed

lemma inv_threads_step:
  "inv_threads sc st \<Longrightarrow> inv_threads sc (step sc r m st a)"
  by (cases "fst a")
     (simp_all add: step_def Let_def inv_threads_main inv_threads_producer inv_threads_world_update)

subsection \<open>The messages of the producers\<close>

lemma inv_msgs_cv [simp]:
  "inv_msgs sc m (cv_block a st) = inv_msgs sc m st"
  "inv_msgs sc m (cv_notify_one st) = inv_msgs sc m st"
  "inv_msgs sc m (cv_notify_all st) = inv_msgs sc m st"
  "inv_msgs sc m (cv_wake a st) = inv_msgs sc m st"
  "inv_msgs sc m (cv_deliver a st) = inv_msgs sc m st"
  by (simp_all add: inv_msgs_def)

lemma inv_msgsD:
  assumes "inv_msgs sc m st"
  shows "m \<le> length (trace st)"
    and "k < length (threads st) \<Longrightarrow> pc (threads st ! k) \<noteq> AtEntry \<Longrightarrow>
           EvReady k \<in> set (drop m (trace st))"
    and "k < length (threads st) \<Longrightarrow> pc (threads st ! k) \<noteq> AtEntry \<Longrightarrow>
           message (threads st ! k) = make_message (message_bytes sc) (of_nat k)"
    and "EvLog k msg \<in> set (drop m (trace st)) \<Longrightarrow>
           msg = make_message (message_bytes sc) (of_nat k)"
  using assms unfolding inv_msgs_def by blast+

lemma inv_msgs_start: "inv_msgs sc (length (trace w)) (start_state w shares)"
  by (simp add: inv_msgs_def start_state_def world.defs run_state.defs)

lemma inv_msgs_main:
  assumes "inv_msgs sc m st"
  shows "inv_msgs sc m (main_step sc md st)"
proof (cases "ctl st")
  case (Spawning i)
  then show ?thesis using assms
    by (auto simp: inv_msgs_def main_step_def emit_def nth_append less_Suc_eq)
next
  case WaitReady
  then show ?thesis using assms
    by (auto simp: inv_msgs_def main_step_def emit_def Let_def)
next
  case (Joining k)
  then show ?thesis using assms
    by (auto simp: inv_msgs_def main_step_def emit_def adapter_flush_def)
next
  case AfterFlush
  then show ?thesis using assms
    by (auto simp: inv_msgs_def main_step_def emit_def)
next
  case (Returned d)
  then show ?thesis using assms by (simp add: main_step_def)
qed

lemma inv_msgs_producer:
  assumes "inv_msgs sc m st" "inv_threads sc st"
  shows "inv_msgs sc m (producer_step sc r k st)"
proof (cases "k < length (threads st)")
  case False
  then show ?thesis using assms by (simp add: producer_step_def)
next
  case k: True
  have idx: "idx (threads st ! k) = of_nat k" using inv_threadsD(2) [OF assms(2) k] .
  show ?thesis
  proof (cases "pc (threads st ! k)")
    case AtEntry
    then show ?thesis using assms(1) k idx
      by (auto simp: inv_msgs_def producer_step_def emit_def Let_def nth_list_update)
  next
    case Waiting
    then show ?thesis using assms(1) k
      by (auto simp: inv_msgs_def producer_step_def set_pc_def Let_def nth_list_update)
  next
    case (Loop n)
    then show ?thesis using assms(1) k
      by (auto simp: inv_msgs_def producer_step_def set_pc_def emit_def Let_def nth_list_update
               split: option.splits)
  next
    case (Logging n tok)
    have "message (threads st ! k) = make_message (message_bytes sc) (of_nat k)"
      using inv_msgsD(3) [OF assms(1) k] Logging by simp
    then show ?thesis using assms(1) k Logging
      by (auto simp: inv_msgs_def producer_step_def set_pc_def emit_def adapter_log_def Let_def
                     nth_list_update)
  next
    case Finished
    then show ?thesis using assms k by (simp add: producer_step_def Let_def)
  next
    case Crashed
    then show ?thesis using assms k by (simp add: producer_step_def Let_def)
  qed
qed

lemma inv_msgs_world_update:
  "inv_msgs sc m (st\<lparr>now := t\<rparr>) = inv_msgs sc m st"
  "inv_msgs sc m (adapter_sink st) = inv_msgs sc m st"
  by (simp_all add: inv_msgs_def adapter_sink_def split: list.splits)

lemma inv_msgs_step:
  "inv_msgs sc m st \<Longrightarrow> inv_threads sc st \<Longrightarrow> inv_msgs sc m (step sc r md st a)"
  by (cases "fst a")
     (simp_all add: step_def Let_def inv_msgs_main inv_msgs_producer inv_msgs_world_update
                    inv_threads_world_update)

subsection \<open>The start barrier\<close>

lemma inv_start_cv [simp]:
  "inv_start sc md m (cv_block a st) = inv_start sc md m st"
  "inv_start sc md m (cv_notify_one st) = inv_start sc md m st"
  "inv_start sc md m (cv_notify_all st) = inv_start sc md m st"
  "inv_start sc md m (cv_wake a st) = inv_start sc md m st"
  "inv_start sc md m (cv_deliver a st) = inv_start sc md m st"
  by (simp_all add: inv_start_def)

lemma inv_start_start: "inv_start sc md (length (trace w)) (start_state w shares)"
  by (simp add: inv_start_def start_state_def world.defs run_state.defs)

lemma inv_start_append:
  assumes inv: "inv_start sc md m st"
    and m: "m \<le> length (trace st)"
    and tr: "trace st' = trace st @ es"
    and sf: "start_flag st' = start_flag st"
    and t0: "t0 st' = t0 st"
    and nw: "\<not> start_flag st \<Longrightarrow> \<forall>x\<in>set es. \<not> is_work x"
  shows "inv_start sc md m st'"
proof (cases "start_flag st")
  case True
  with inv obtain a b where ab: "drop m (trace st) = a @ EvStartFlag # b"
    "\<forall>i<unat (producers sc). EvReady i \<in> set a" "md \<longrightarrow> EvT0 (t0 st) \<in> set a"
    "\<forall>x\<in>set a. \<not> is_work x"
    unfolding inv_start_def by auto
  have "drop m (trace st') = a @ EvStartFlag # (b @ es)"
    using ab(1) m tr by simp
  with ab(2-4) True show ?thesis unfolding inv_start_def sf t0 by auto
next
  case False
  with inv have "\<forall>x\<in>set (drop m (trace st)). \<not> is_work x"
    unfolding inv_start_def by simp
  with nw [OF False] False show ?thesis unfolding inv_start_def sf using m tr by auto
qed

lemma inv_start_main:
  assumes "inv_start sc md m st" "inv_msgs sc m st" "inv_threads sc st"
  shows "inv_start sc md m (main_step sc md st)"
proof -
  note m = inv_msgsD(1) [OF assms(2)]
  show ?thesis
  proof (cases "ctl st")
    case (Spawning i)
    show ?thesis
    proof (cases "i < producers sc")
      case True
      show ?thesis
        by (rule inv_start_append [OF assms(1) m, where es = "[EvSpawn (unat i)]"])
           (simp_all add: main_step_def Spawning True emit_def is_work_def)
    next
      case False
      show ?thesis
        by (rule inv_start_append [OF assms(1) m, where es = "[]"])
           (simp_all add: main_step_def Spawning False)
    qed
  next
    case WaitReady
    show ?thesis
    proof (cases "Controlling \<in> set (asleep st) \<or> ready st \<noteq> producers sc")
      case True
      then show ?thesis using assms(1) WaitReady by (auto simp: main_step_def)
    next
      case False
      then have awake: "Controlling \<notin> set (asleep st)" and True: "ready st = producers sc"
        by simp_all
      have nf: "\<not> start_flag st" using inv_threadsD(6) [OF assms(3)] WaitReady by simp
      then have nowork: "\<forall>x\<in>set (drop m (trace st)). \<not> is_work x"
        using assms(1) unfolding inv_start_def by simp
      have len: "length (threads st) = unat (producers sc)"
        using inv_threadsD(4) [OF assms(3)] WaitReady by simp
      have "length (filter (\<lambda>th. pc th \<noteq> AtEntry) (threads st)) = length (threads st)"
        using inv_threadsD(5) [OF assms(3)] True len by simp
      then have "\<forall>k<length (threads st). pc (threads st ! k) \<noteq> AtEntry"
        using filter_all [of "\<lambda>th. pc th \<noteq> AtEntry" "threads st"] by blast
      then have ready: "\<forall>i<unat (producers sc). EvReady i \<in> set (drop m (trace st))"
        using inv_msgsD(2) [OF assms(2)] len by simp
      show ?thesis
      proof (cases md)
        case True
        have tr: "drop m (trace (main_step sc md st)) =
              (drop m (trace st) @ [EvT0 (now st)]) @ EvStartFlag # []"
          using WaitReady \<open>ready st = producers sc\<close> awake True m
          by (simp add: main_step_def emit_def)
        have sf: "start_flag (main_step sc md st)" and t: "t0 (main_step sc md st) = now st"
          using WaitReady \<open>ready st = producers sc\<close> awake True
          by (simp_all add: main_step_def emit_def)
        have "\<exists>a b. drop m (trace (main_step sc md st)) = a @ EvStartFlag # b \<and>
                (\<forall>i<unat (producers sc). EvReady i \<in> set a) \<and>
                (md \<longrightarrow> EvT0 (t0 (main_step sc md st)) \<in> set a) \<and>
                (\<forall>x\<in>set a. \<not> is_work x)"
          apply (rule exI [of _ "drop m (trace st) @ [EvT0 (now st)]"])
          apply (rule exI [of _ "[]"])
          using tr t ready nowork True by (simp add: is_work_def)
        with sf show ?thesis unfolding inv_start_def by simp
      next
        case False
        have tr: "drop m (trace (main_step sc md st)) = drop m (trace st) @ EvStartFlag # []"
          using WaitReady \<open>ready st = producers sc\<close> awake False m
          by (simp add: main_step_def emit_def)
        have sf: "start_flag (main_step sc md st)"
          using WaitReady \<open>ready st = producers sc\<close> awake False
          by (simp_all add: main_step_def emit_def)
        have "\<exists>a b. drop m (trace (main_step sc md st)) = a @ EvStartFlag # b \<and>
                (\<forall>i<unat (producers sc). EvReady i \<in> set a) \<and>
                (md \<longrightarrow> EvT0 (t0 (main_step sc md st)) \<in> set a) \<and>
                (\<forall>x\<in>set a. \<not> is_work x)"
          apply (rule exI [of _ "drop m (trace st)"])
          apply (rule exI [of _ "[]"])
          using tr ready nowork False by simp
        with sf show ?thesis unfolding inv_start_def by simp
      qed
    qed
  next
    case (Joining k)
    have sf: "start_flag st" using inv_threadsD(6) [OF assms(3)] Joining by simp
    show ?thesis
    proof (cases "k < length (threads st)")
      case True
      show ?thesis
      proof (cases "pc (threads st ! k) = Finished")
        case f: True
        show ?thesis
          by (rule inv_start_append [OF assms(1) m, where es = "[EvJoin k]"])
             (simp_all add: main_step_def Joining True f emit_def sf)
      next
        case False
        then show ?thesis using assms(1) Joining True by (simp add: main_step_def)
      qed
    next
      case False
      show ?thesis
        by (rule inv_start_append [OF assms(1) m, where es = "[EvFlush]"])
           (simp_all add: main_step_def Joining False emit_def adapter_flush_def sf)
    qed
  next
    case AfterFlush
    have sf: "start_flag st" using inv_threadsD(6) [OF assms(3)] AfterFlush by simp
    show ?thesis
    proof (cases md)
      case True
      show ?thesis
        by (rule inv_start_append [OF assms(1) m, where es = "[EvT1 (now st)]"])
           (simp_all add: main_step_def AfterFlush True emit_def sf)
    next
      case False
      show ?thesis
        by (rule inv_start_append [OF assms(1) m, where es = "[]"])
           (simp_all add: main_step_def AfterFlush False)
    qed
  next
    case (Returned d)
    then show ?thesis using assms(1) by (simp add: main_step_def)
  qed
qed

lemma inv_start_producer:
  assumes "inv_start sc md m st" "inv_msgs sc m st" "inv_threads sc st"
  shows "inv_start sc md m (producer_step sc r k st)"
proof (cases "k < length (threads st)")
  case False
  then show ?thesis using assms by (simp add: producer_step_def)
next
  case k: True
  note m = inv_msgsD(1) [OF assms(2)]
  show ?thesis
  proof (cases "pc (threads st ! k)")
    case AtEntry
    show ?thesis
      by (rule inv_start_append [OF assms(1) m, where es = "[EvReady k]"])
         (simp_all add: producer_step_def k AtEntry emit_def Let_def is_work_def)
  next
    case Waiting
    show ?thesis
      by (rule inv_start_append [OF assms(1) m, where es = "[]"])
         (simp_all add: producer_step_def k Waiting set_pc_def Let_def)
  next
    case (Loop n)
    have sf: "start_flag st" using inv_threadsD(7) [OF assms(3) k] Loop by simp
    show ?thesis
    proof (cases "n < per_thread st ! unat (idx (threads st ! k))")
      case False
      show ?thesis
        by (rule inv_start_append [OF assms(1) m, where es = "[]"])
           (simp_all add: producer_step_def k Loop False set_pc_def Let_def)
    next
      case True
      show ?thesis
      proof (cases "recorder_begin (recorder st) r (now st)")
        case None
        show ?thesis
          by (rule inv_start_append [OF assms(1) m, where es = "[]"])
             (simp_all add: producer_step_def k Loop True None set_pc_def Let_def)
      next
        case (Some p)
        show ?thesis
          by (rule inv_start_append [OF assms(1) m, where es = "[EvBegin k r]"])
             (simp_all add: producer_step_def k Loop True Some set_pc_def emit_def Let_def sf
                            split: prod.splits)
      qed
    qed
  next
    case (Logging n tok)
    have sf: "start_flag st" using inv_threadsD(7) [OF assms(3) k] Logging by simp
    show ?thesis
      by (rule inv_start_append [OF assms(1) m, where es = "[EvLog k (message (threads st ! k))]"])
         (simp_all add: producer_step_def k Logging set_pc_def emit_def adapter_log_def Let_def sf)
  next
    case Finished
    then show ?thesis using assms k by (simp add: producer_step_def Let_def)
  next
    case Crashed
    then show ?thesis using assms k by (simp add: producer_step_def Let_def)
  qed
qed

lemma inv_start_world_update:
  "inv_start sc md m (st\<lparr>now := t\<rparr>) = inv_start sc md m st"
  "inv_start sc md m (adapter_sink st) = inv_start sc md m st"
  by (simp_all add: inv_start_def adapter_sink_def split: list.splits)

lemma foldl_invariant:
  "I s \<Longrightarrow> (\<And>s a. I s \<Longrightarrow> I (f s a)) \<Longrightarrow> I (foldl f s xs)"
  by (induction xs arbitrary: s) simp_all

subsection \<open>Joins, flush and the end timestamp\<close>

lemma inv_join_cv [simp]:
  "inv_join sc md m (cv_block a st) = inv_join sc md m st"
  "inv_join sc md m (cv_notify_one st) = inv_join sc md m st"
  "inv_join sc md m (cv_notify_all st) = inv_join sc md m st"
  "inv_join sc md m (cv_wake a st) = inv_join sc md m st"
  "inv_join sc md m (cv_deliver a st) = inv_join sc md m st"
  by (simp_all add: inv_join_def joined_before_def)

lemma inv_join_start: "inv_join sc md (length (trace w)) (start_state w shares)"
  by (simp add: inv_join_def start_state_def world.defs run_state.defs)

lemma producer_step_frame:
  "ctl (producer_step sc r k st) = ctl st"
  "t0 (producer_step sc r k st) = t0 st"
  "start_flag (producer_step sc r k st) = start_flag st"
  "per_thread (producer_step sc r k st) = per_thread st"
  "length (threads (producer_step sc r k st)) = length (threads st)"
  by (auto simp: producer_step_def Let_def set_pc_def emit_def adapter_log_def
           split: producer_pc.splits option.splits)

lemma producer_step_finished:
  "pc (threads st ! j) = Finished \<Longrightarrow> pc (threads (producer_step sc r k st) ! j) = Finished"
  by (cases "j = k")
     (auto simp: producer_step_def Let_def set_pc_def emit_def adapter_log_def
           split: producer_pc.splits option.splits)

lemma producer_step_trace:
  "\<exists>es. trace (producer_step sc r k st) = trace st @ es \<and>
        (\<forall>e\<in>set es. e = EvReady k \<or> is_work e)"
  by (auto simp: producer_step_def Let_def set_pc_def emit_def adapter_log_def is_work_def
           split: producer_pc.splits option.splits)

lemma producer_step_idle:
  "\<forall>j<length (threads st). pc (threads st ! j) = Finished \<Longrightarrow> producer_step sc r k st = st"
  by (auto simp: producer_step_def Let_def)

lemma inv_join_producer:
  assumes inv: "inv_join sc md m st" and m: "m \<le> length (trace st)"
  shows "inv_join sc md m (producer_step sc r k st)"
proof (cases "ctl st = AfterFlush \<or> (\<exists>d. ctl st = Returned d)")
  case True
  with inv have "\<forall>j<length (threads st). pc (threads st ! j) = Finished"
    unfolding inv_join_def by blast
  then have "producer_step sc r k st = st" by (rule producer_step_idle)
  with inv show ?thesis by simp
next
  case False
  obtain es where es: "trace (producer_step sc r k st) = trace st @ es"
    "\<forall>e\<in>set es. e = EvReady k \<or> is_work e"
    using producer_step_trace by blast
  have dr: "drop m (trace (producer_step sc r k st)) = drop m (trace st) @ es"
    using es(1) m by simp
  have nf: "EvFlush \<notin> set es" "\<And>t. EvT1 t \<notin> set es"
    using es(2) by (auto simp: is_work_def)
  have c1: "EvFlush \<notin> set (drop m (trace st))" "\<And>t. EvT1 t \<notin> set (drop m (trace st))"
    using inv False unfolding inv_join_def by auto
  have c2: "k' \<le> length (threads st) \<and>
        (\<forall>j<k'. EvJoin j \<in> set (drop m (trace st)) \<and> pc (threads st ! j) = Finished)"
    if "ctl st = Joining k'" for k'
    using inv that unfolding inv_join_def by blast
  show ?thesis
    unfolding inv_join_def producer_step_frame dr
    using False nf c1 c2 producer_step_finished [of st _ sc r k]
    by auto
qed

lemma inv_join_sink:
  "inv_join sc md m (adapter_sink st) = inv_join sc md m st"
  "inv_join sc md m (st\<lparr>now := t\<rparr>) = inv_join sc md m st"
  by (simp_all add: inv_join_def joined_before_def adapter_sink_def split: list.splits)

lemma inv_join_main:
  assumes inv: "inv_join sc md m st" and m: "m \<le> length (trace st)"
    and thr: "inv_threads sc st" and start: "inv_start sc md m st"
  shows "inv_join sc md m (main_step sc md st)"
proof (cases "ctl st")
  case (Spawning i)
  then show ?thesis using inv m
    by (auto simp: inv_join_def main_step_def emit_def)
next
  case WaitReady
  then show ?thesis using inv m
    by (auto simp: inv_join_def main_step_def emit_def Let_def)
next
  case (Joining k)
  have c1: "EvFlush \<notin> set (drop m (trace st))" "\<And>t. EvT1 t \<notin> set (drop m (trace st))"
    using inv Joining unfolding inv_join_def by auto
  have c2: "k \<le> length (threads st)"
    "\<And>j. j < k \<Longrightarrow> EvJoin j \<in> set (drop m (trace st)) \<and> pc (threads st ! j) = Finished"
    using inv Joining unfolding inv_join_def by auto
  show ?thesis
  proof (cases "k < length (threads st)")
    case True
    show ?thesis
    proof (cases "pc (threads st ! k) = Finished")
      case False
      then show ?thesis using inv Joining True by (simp add: main_step_def)
    next
      case f: True
      have st': "main_step sc md st = emit (EvJoin k) (st\<lparr>ctl := Joining (Suc k)\<rparr>)"
        using Joining True f by (simp add: main_step_def)
      show ?thesis unfolding st' inv_join_def using c1 c2 True f m
        by (auto simp: emit_def less_Suc_eq)
    qed
  next
    case False
    with c2(1) have k: "k = length (threads st)" by simp
    have len: "length (threads st) = unat (producers sc)"
      using inv_threadsD(4) [OF thr] Joining by simp
    have sf: "start_flag st" using inv_threadsD(6) [OF thr] Joining by simp
    then have t0: "md \<longrightarrow> EvT0 (t0 st) \<in> set (drop m (trace st))"
      using start unfolding inv_start_def by auto
    have st': "main_step sc md st = adapter_flush (emit EvFlush (st\<lparr>ctl := AfterFlush\<rparr>))"
      using Joining False by (simp add: main_step_def)
    have "joined_before sc md st (drop m (trace st))"
      unfolding joined_before_def using c1 c2(2) k len t0 by simp
    then show ?thesis unfolding st' inv_join_def using c2(2) k m
      by (simp add: emit_def adapter_flush_def joined_before_def)
  qed
next
  case AfterFlush
  from inv AfterFlush obtain a where a: "drop m (trace st) = a @ [EvFlush]"
    "joined_before sc md st a"
    and fin: "\<forall>j<length (threads st). pc (threads st ! j) = Finished"
    unfolding inv_join_def by auto
  show ?thesis
  proof (cases md)
    case True
    have st': "main_step sc md st = emit (EvT1 (now st)) (st\<lparr>ctl := Returned (now st - t0 st)\<rparr>)"
      using AfterFlush True by (simp add: main_step_def)
    have "\<exists>a'. drop m (trace st) @ [EvT1 (now st)] = a' @ [EvFlush, EvT1 (now st)] \<and>
              joined_before sc md st a'"
      apply (rule exI [of _ a])
      using a by simp
    then show ?thesis unfolding st' inv_join_def using fin m True
      by (simp add: emit_def joined_before_def)
  next
    case False
    have st': "main_step sc md st = st\<lparr>ctl := Returned 0\<rparr>"
      using AfterFlush False by (simp add: main_step_def)
    have "\<exists>a'. drop m (trace st) = a' @ [EvFlush] \<and> joined_before sc md st a'"
      apply (rule exI [of _ a])
      using a by simp
    then show ?thesis unfolding st' inv_join_def using fin m False
      by (simp add: joined_before_def)
  qed
next
  case (Returned d)
  then show ?thesis using inv by (simp add: main_step_def)
qed

subsection \<open>The invariants along a run\<close>

lemma inv_all_step:
  assumes "inv_all sc md m st"
  shows "inv_all sc md m (step sc r md st a)"
proof -
  from assms have t: "inv_threads sc st" and ms: "inv_msgs sc m st"
    and s: "inv_start sc md m st" and j: "inv_join sc md m st"
    by (simp_all add: inv_all_def)
  note m = inv_msgsD(1) [OF ms]
  have "inv_start sc md m (step sc r md st a)"
    using t ms s
    by (cases "fst a")
       (simp_all add: step_def Let_def inv_start_main inv_start_producer inv_start_world_update
                      inv_msgs_world_update inv_threads_world_update)
  moreover have "inv_join sc md m (step sc r md st a)"
    using t s j m
    by (cases "fst a")
       (simp_all add: step_def Let_def inv_join_main inv_join_producer inv_join_sink
                      inv_start_world_update inv_threads_world_update)
  ultimately show ?thesis
    using inv_threads_step [OF t] inv_msgs_step [OF ms t] by (simp add: inv_all_def)
qed

lemma inv_all_exec:
  "inv_all sc md (Suc (length (trace w))) (exec w sc n r md sched)"
  unfolding exec_def
proof (rule foldl_invariant)
  show "inv_all sc md (Suc (length (trace w)))
          (start_state (emit (EvRun n r md) w) (distribute n (producers sc)))"
    using inv_threads_start [of sc "emit (EvRun n r md) w"]
      inv_msgs_start [of sc "emit (EvRun n r md) w"]
      inv_start_start [of sc md "emit (EvRun n r md) w"]
      inv_join_start [of sc md "emit (EvRun n r md) w"]
    by (simp add: inv_all_def emit_def)
qed (rule inv_all_step)

lemma run_workload_threads:
  "producers sc \<noteq> 0 \<Longrightarrow>
   run_workload w sc n r md sched =
     (case ctl (exec w sc n r md sched) of Returned d \<Rightarrow> Some d | _ \<Rightarrow> None,
      world.truncate (exec w sc n r md sched))"
  by (simp add: run_workload_def Let_def)

lemma run_events_exec:
  "producers sc \<noteq> 0 \<Longrightarrow>
   run_events w (snd (run_workload w sc n r md sched)) =
     drop (Suc (length (trace w))) (trace (exec w sc n r md sched))"
  by (simp add: run_workload_threads run_events_def world.defs)

lemma run_events_no_threads:
  "producers sc = 0 \<Longrightarrow> run_events w (snd (run_workload w sc n r md sched)) = [EvFlush]"
  by (simp add: run_workload_def run_events_def emit_def adapter_flush_def)

lemma split_after:
  assumes "a @ s # b = pre @ e # post" "e \<notin> set a" "e \<noteq> s"
  shows "\<exists>b'. pre = a @ s # b'"
proof -
  from assms(1) obtain us where
    "(a = pre @ us \<and> us @ s # b = e # post) \<or> (a @ us = pre \<and> s # b = us @ e # post)"
    by (auto simp: append_eq_append_conv2)
  then show ?thesis
  proof
    assume h: "a = pre @ us \<and> us @ s # b = e # post"
    then show ?thesis using assms(2,3) by (cases us) auto
  next
    assume h: "a @ us = pre \<and> s # b = us @ e # post"
    then show ?thesis using assms(3) by (cases us) auto
  qed
qed

text \<open>
  Claim C3. With at least one producer, under every schedule and at every point of the
  run: a call of \<open>recorder.begin\<close> or \<open>adapter.log\<close> in the events of the run is
  preceded by the assignment \<open>start_flag = true\<close>, and before that assignment every
  producer has incremented \<open>ready\<close>, the start timestamp has been taken when
  \<open>measure_duration\<close> is set, and no producer has called \<open>begin\<close> or \<open>log\<close>.
\<close>
theorem start_barrier:
  assumes p: "producers sc \<noteq> 0"
    and ev: "run_events w (snd (run_workload w sc n r md sched)) = pre @ e # post"
    and work: "is_work e"
  shows "\<exists>a b. pre = a @ EvStartFlag # b \<and>
           (\<forall>i<unat (producers sc). EvReady i \<in> set a) \<and>
           (md \<longrightarrow> (\<exists>t. EvT0 t \<in> set a)) \<and>
           (\<forall>x\<in>set a. \<not> is_work x)"
proof -
  let ?st = "exec w sc n r md sched"
  let ?evs = "drop (Suc (length (trace w))) (trace ?st)"
  have evs: "?evs = pre @ e # post" using ev run_events_exec [OF p] by simp
  have inv: "inv_start sc md (Suc (length (trace w))) ?st"
    using inv_all_exec [of sc md w n r sched] by (simp add: inv_all_def)
  have "start_flag ?st"
  proof (rule ccontr)
    assume "\<not> start_flag ?st"
    with inv have "\<forall>x\<in>set ?evs. \<not> is_work x" unfolding inv_start_def by simp
    with evs work show False by simp
  qed
  with inv obtain a b where ab: "?evs = a @ EvStartFlag # b"
    "\<forall>i<unat (producers sc). EvReady i \<in> set a" "md \<longrightarrow> EvT0 (t0 ?st) \<in> set a"
    "\<forall>x\<in>set a. \<not> is_work x"
    unfolding inv_start_def by auto
  have "e \<notin> set a" using ab(4) work by blast
  moreover have "e \<noteq> EvStartFlag" using work by (auto simp: is_work_def)
  ultimately obtain b' where "pre = a @ EvStartFlag # b'"
    using split_after [of a EvStartFlag b pre e post] ab(1) evs by auto
  with ab(2-4) show ?thesis by blast
qed

lemma flush_normal_form:
  assumes inv: "inv_join sc md m st"
  shows "(EvFlush \<notin> set (drop m (trace st)) \<and> (\<forall>t. EvT1 t \<notin> set (drop m (trace st))) \<and>
          (\<forall>d. ctl st \<noteq> Returned d)) \<or>
         (\<exists>a tl. drop m (trace st) = a @ EvFlush # tl \<and> joined_before sc md st a \<and>
            (tl = [] \<or> (\<exists>t. tl = [EvT1 t])) \<and>
            (\<forall>d. ctl st = Returned d \<longrightarrow> tl = (if md then [EvT1 (t0 st + d)] else [])))"
proof -
  consider (early) "ctl st \<noteq> AfterFlush" "\<forall>d. ctl st \<noteq> Returned d"
    | (flushed) "ctl st = AfterFlush" | (returned) d where "ctl st = Returned d"
    by blast
  then show ?thesis
  proof cases
    case early
    with inv show ?thesis unfolding inv_join_def by simp
  next
    case flushed
    with inv obtain a where "drop m (trace st) = a @ EvFlush # []" "joined_before sc md st a"
      unfolding inv_join_def by auto
    with flushed show ?thesis by auto
  next
    case returned
    with inv obtain a where
      "drop m (trace st) = a @ EvFlush # (if md then [EvT1 (t0 st + d)] else [])"
      "joined_before sc md st a"
      unfolding inv_join_def by auto
    with returned show ?thesis by auto
  qed
qed

lemma returned_flushed:
  assumes inv: "inv_join sc md m st" and ret: "ctl st = Returned d"
  shows "\<exists>a. drop m (trace st) = a @ EvFlush # (if md then [EvT1 (t0 st + d)] else []) \<and>
             (md \<longrightarrow> EvT0 (t0 st) \<in> set a)"
  using inv ret unfolding inv_join_def joined_before_def by blast

text \<open>
  Claim C5. With at least one producer, under every schedule: \<open>adapter.flush()\<close> comes
  after the join of every producer and is followed by no call of \<open>begin\<close>, \<open>log\<close> or
  \<open>flush\<close>; the end timestamp is taken after the flush; and when the function returns a
  duration \<open>d\<close>, the events of the run end with the flush, followed when
  \<open>measure_duration\<close> is set by the end timestamp \<open>t1 = t0 + d\<close> for the start timestamp
  \<open>t0\<close> taken before the flush, so that the flush lies within the measured interval.
\<close>
theorem flush_after_join:
  assumes p: "producers sc \<noteq> 0"
  shows "(\<forall>pre post. run_events w (snd (run_workload w sc n r md sched)) = pre @ EvFlush # post \<longrightarrow>
            (\<forall>j<unat (producers sc). EvJoin j \<in> set pre) \<and>
            (\<forall>x\<in>set post. \<not> is_work x \<and> x \<noteq> EvFlush)) \<and>
         (\<forall>pre t1 post. run_events w (snd (run_workload w sc n r md sched)) = pre @ EvT1 t1 # post \<longrightarrow>
            EvFlush \<in> set pre) \<and>
         (\<forall>d. fst (run_workload w sc n r md sched) = Some d \<longrightarrow>
            (\<exists>pre start. run_events w (snd (run_workload w sc n r md sched)) =
                 pre @ EvFlush # (if md then [EvT1 (start + d)] else []) \<and>
               (md \<longrightarrow> EvT0 start \<in> set pre)))"
proof -
  let ?st = "exec w sc n r md sched"
  let ?evs = "drop (Suc (length (trace w))) (trace ?st)"
  have evs: "run_events w (snd (run_workload w sc n r md sched)) = ?evs"
    using run_events_exec [OF p] by simp
  have res: "fst (run_workload w sc n r md sched) = Some d \<longleftrightarrow> ctl ?st = Returned d" for d
    by (simp add: run_workload_threads [OF p] split: main_pc.splits)
  have inv: "inv_join sc md (Suc (length (trace w))) ?st"
    using inv_all_exec [of sc md w n r sched] by (simp add: inv_all_def)
  note nf = flush_normal_form [OF inv]
  have part1: "(\<forall>j<unat (producers sc). EvJoin j \<in> set pre) \<and>
               (\<forall>x\<in>set post. \<not> is_work x \<and> x \<noteq> EvFlush)"
    if split: "?evs = pre @ EvFlush # post" for pre post
  proof -
    have "EvFlush \<in> set ?evs" using split by simp
    with nf obtain a tl where a: "?evs = a @ EvFlush # tl" "joined_before sc md ?st a"
      "tl = [] \<or> (\<exists>t. tl = [EvT1 t])"
      by blast
    have nfa: "EvFlush \<notin> set a" using a(2) by (simp add: joined_before_def)
    have nft: "EvFlush \<notin> set tl" using a(3) by auto
    have "pre = a \<and> post = tl"
      using split a(1) append_Cons_eq_iff [OF nfa nft, of pre post] by simp
    moreover have "\<forall>x\<in>set tl. \<not> is_work x \<and> x \<noteq> EvFlush"
      using a(3) by (auto simp: is_work_def)
    ultimately show ?thesis using a(2) by (simp add: joined_before_def)
  qed
  have part2: "EvFlush \<in> set pre" if split: "?evs = pre @ EvT1 t1 # post" for pre t1 post
  proof -
    have "EvT1 t1 \<in> set ?evs" using split by simp
    with nf obtain a tl where a: "?evs = a @ EvFlush # tl" "joined_before sc md ?st a"
      by blast
    have "EvT1 t1 \<notin> set a" using a(2) by (simp add: joined_before_def)
    then obtain b' where "pre = a @ EvFlush # b'"
      using split_after [of a EvFlush tl pre "EvT1 t1" post] a(1) split by auto
    then show ?thesis by simp
  qed
  have part3: "\<exists>pre start. ?evs = pre @ EvFlush # (if md then [EvT1 (start + d)] else []) \<and>
               (md \<longrightarrow> EvT0 start \<in> set pre)"
    if "fst (run_workload w sc n r md sched) = Some d" for d
  proof -
    have "ctl ?st = Returned d" using that res by simp
    from returned_flushed [OF inv this] show ?thesis by blast
  qed
  show ?thesis unfolding evs
    apply (intro conjI)
    subgoal by (intro allI impI) (erule part1)
    subgoal by (intro allI impI) (erule part2)
    subgoal by (intro allI impI) (erule part3)
    done
qed

subsection \<open>Shares, the edge case, payloads and the environment\<close>

lemma per_thread_step: "per_thread (step sc r md st a) = per_thread st"
  by (cases "fst a")
     (auto simp: step_def Let_def main_step_def emit_def adapter_flush_def adapter_sink_def
                 producer_step_frame
           split: main_pc.splits list.splits)

lemma per_thread_exec: "per_thread (exec w sc n r md sched) = distribute n (producers sc)"
  unfolding exec_def
  by (rule foldl_invariant) (simp_all add: per_thread_step start_state_def world.defs run_state.defs)

text \<open>
  Claim C1. With at least one producer, \<open>per_thread\<close> is the vector computed by
  \<open>distribute\<close> throughout the run; it has one entry per producer; entry \<open>k\<close> is
  \<open>base = total_messages / producers\<close>, plus one exactly for the first
  \<open>total_messages mod producers\<close> indices; and the entries, read as natural numbers, sum
  to \<open>total_messages\<close>.
\<close>
theorem shares_sum_to_total:
  assumes "producers sc \<noteq> 0"
  shows "per_thread (exec w sc n r md sched) = distribute n (producers sc) \<and>
         length (distribute n (producers sc)) = unat (producers sc) \<and>
         (\<forall>k<unat (producers sc).
            distribute n (producers sc) ! k =
              n div producers sc + (if k < unat (n mod producers sc) then 1 else 0)) \<and>
         sum_list (map unat (distribute n (producers sc))) = unat n"
  using assms
  by (simp add: per_thread_exec distribute_length distribute_nth distribute_sum)

text \<open>
  Claim C4. With \<open>scenario.producers = 0\<close>, whatever the other arguments,
  \<open>run_workload\<close> returns the duration 0, its only event is one \<open>adapter.flush()\<close> (so no
  thread is spawned), and the adapter is left with nothing outstanding.
\<close>
theorem no_producers_flush_only:
  assumes "producers sc = 0"
  shows "fst (run_workload w sc n r md sched) = Some 0 \<and>
         run_events w (snd (run_workload w sc n r md sched)) = [EvFlush] \<and>
         trace (snd (run_workload w sc n r md sched)) = trace w @ [EvRun n r md, EvFlush] \<and>
         pending (adapter (snd (run_workload w sc n r md sched))) = []"
  using assms
  by (simp add: run_workload_def run_events_def emit_def adapter_flush_def)

lemma zero_without_measuring:
  assumes "fst (run_workload w sc n r False sched) = Some d"
  shows "d = 0"
proof (cases "producers sc = 0")
  case True
  with assms show ?thesis by (simp add: run_workload_def)
next
  case False
  let ?st = "exec w sc n r False sched"
  have "ctl ?st = Returned d"
    using assms by (simp add: run_workload_threads [OF False] split: main_pc.splits)
  moreover have "inv_join sc False (Suc (length (trace w))) ?st"
    using inv_all_exec [of sc False w n r sched] by (simp add: inv_all_def)
  ultimately show ?thesis unfolding inv_join_def by blast
qed

lemma make_message_fill:
  "bytes \<noteq> 0 \<Longrightarrow>
   make_message bytes index = replicate (unat bytes) (char_of (65 + unat index mod 26))"
  by (simp add: make_message_def Let_def unat_mod)

text \<open>
  Claim C9. \<open>make_message\<close> yields the empty string for 0 bytes and otherwise
  \<open>bytes\<close> copies of the character with code \<open>'A' + index mod 26\<close>; and the message a
  producer \<open>k\<close> passes to \<open>adapter.log\<close> is \<open>make_message\<close> of the scenario's
  \<open>message_bytes\<close> and \<open>k\<close>, whatever the world, the message count, the flags and the
  schedule: two runs of one scenario log the same payloads.
\<close>
theorem payload_deterministic:
  "make_message 0 index = [] \<and>
   (bytes \<noteq> 0 \<longrightarrow>
      make_message bytes index = replicate (unat bytes) (char_of (65 + unat index mod 26))) \<and>
   (EvLog k msg \<in> set (run_events w (snd (run_workload w sc n r md sched))) \<longrightarrow>
      msg = make_message (message_bytes sc) (of_nat k))"
proof (intro conjI impI)
  show "make_message 0 index = []" by (simp add: make_message_def)
next
  assume "bytes \<noteq> 0"
  then show "make_message bytes index = replicate (unat bytes) (char_of (65 + unat index mod 26))"
    by (rule make_message_fill)
next
  assume ev: "EvLog k msg \<in> set (run_events w (snd (run_workload w sc n r md sched)))"
  show "msg = make_message (message_bytes sc) (of_nat k)"
  proof (cases "producers sc = 0")
    case True
    with ev show ?thesis by (simp add: run_events_no_threads)
  next
    case False
    have "inv_msgs sc (Suc (length (trace w))) (exec w sc n r md sched)"
      using inv_all_exec [of sc md w n r sched] by (simp add: inv_all_def)
    from inv_msgsD(4) [OF this] ev show ?thesis by (simp add: run_events_exec [OF False])
  qed
qed

text \<open>
  Claim C10. \<open>get_env_size_t\<close> returns the default when the variable is not set and when
  \<open>std::stoull\<close> throws on its value, returns the parsed number otherwise, and in every
  case returns a value (no exception leaves it).
\<close>
theorem get_env_size_t_outcomes:
  "(getenv name = None \<longrightarrow> get_env_size_t getenv stoull name def = Inr def) \<and>
   (\<forall>v e. getenv name = Some v \<and> stoull v = Inl e \<longrightarrow>
      get_env_size_t getenv stoull name def = Inr def) \<and>
   (\<forall>v n. getenv name = Some v \<and> stoull v = Inr n \<longrightarrow>
      get_env_size_t getenv stoull name def = Inr n) \<and>
   (\<exists>result. get_env_size_t getenv stoull name def = Inr result)"
  by (auto simp: get_env_size_t_def split: option.splits sum.splits)

subsection \<open>A concrete run\<close>

lemma demo_producers: "producers demo_scenario \<noteq> 0"
  by (simp add: demo_scenario_def)

lemma demo_events:
  "run_events demo_world (snd (run_workload demo_world demo_scenario 3 True True demo_schedule)) =
     [EvSpawn 0, EvSpawn 1, EvReady 0, EvReady 1, EvT0 6, EvStartFlag, EvBegin 0 True,
      EvLog 0 ''AAA'', EvBegin 0 True, EvLog 0 ''AAA'', EvBegin 1 True, EvLog 1 ''BBB'',
      EvJoin 0, EvJoin 1, EvFlush, EvT1 47]"
  by code_simp

lemma demo_result:
  "fst (run_workload demo_world demo_scenario 3 True True demo_schedule) = Some 41"
  by code_simp

theorem shares_sum_to_total_witness:
  "producers demo_scenario \<noteq> 0 \<and>
   distribute 3 (producers demo_scenario) = [2, 1] \<and>
   per_thread (exec demo_world demo_scenario 3 True True demo_schedule) = [2, 1] \<and>
   sum_list (map unat (distribute 3 (producers demo_scenario))) = unat (3 :: size_t)"
proof -
  have d: "distribute 3 (producers demo_scenario) = [2, 1]" by code_simp
  from shares_sum_to_total [OF demo_producers, of demo_world 3 True True demo_schedule] d
  show ?thesis using demo_producers by simp
qed

theorem start_barrier_witness:
  "producers demo_scenario \<noteq> 0 \<and> is_work (EvBegin 0 True) \<and>
   run_events demo_world (snd (run_workload demo_world demo_scenario 3 True True demo_schedule)) =
     [EvSpawn 0, EvSpawn 1, EvReady 0, EvReady 1, EvT0 6, EvStartFlag] @ EvBegin 0 True #
     [EvLog 0 ''AAA'', EvBegin 0 True, EvLog 0 ''AAA'', EvBegin 1 True, EvLog 1 ''BBB'',
      EvJoin 0, EvJoin 1, EvFlush, EvT1 47] \<and>
   (\<exists>a b. [EvSpawn 0, EvSpawn 1, EvReady 0, EvReady 1, EvT0 6, EvStartFlag] = a @ EvStartFlag # b \<and>
      (\<forall>i<unat (producers demo_scenario). EvReady i \<in> set a) \<and>
      (True \<longrightarrow> (\<exists>t. EvT0 t \<in> set a)) \<and>
      (\<forall>x\<in>set a. \<not> is_work x))"
proof -
  have ev: "run_events demo_world
      (snd (run_workload demo_world demo_scenario 3 True True demo_schedule)) =
     [EvSpawn 0, EvSpawn 1, EvReady 0, EvReady 1, EvT0 6, EvStartFlag] @ EvBegin 0 True #
     [EvLog 0 ''AAA'', EvBegin 0 True, EvLog 0 ''AAA'', EvBegin 1 True, EvLog 1 ''BBB'',
      EvJoin 0, EvJoin 1, EvFlush, EvT1 47]"
    using demo_events by simp
  have work: "is_work (EvBegin 0 True)" by (simp add: is_work_def)
  from start_barrier [OF demo_producers ev work] ev work demo_producers
  show ?thesis by blast
qed

theorem no_producers_flush_only_witness:
  "producers (demo_scenario\<lparr>producers := 0\<rparr>) = 0 \<and>
   fst (run_workload demo_world (demo_scenario\<lparr>producers := 0\<rparr>) 3 True True demo_schedule) = Some 0 \<and>
   run_events demo_world
     (snd (run_workload demo_world (demo_scenario\<lparr>producers := 0\<rparr>) 3 True True demo_schedule)) =
     [EvFlush]"
  using no_producers_flush_only [of "demo_scenario\<lparr>producers := 0\<rparr>" demo_world 3 True True
      demo_schedule]
  by simp

theorem flush_after_join_witness:
  "producers demo_scenario \<noteq> 0 \<and>
   run_events demo_world (snd (run_workload demo_world demo_scenario 3 True True demo_schedule)) =
     [EvSpawn 0, EvSpawn 1, EvReady 0, EvReady 1, EvT0 6, EvStartFlag, EvBegin 0 True,
      EvLog 0 ''AAA'', EvBegin 0 True, EvLog 0 ''AAA'', EvBegin 1 True, EvLog 1 ''BBB'',
      EvJoin 0, EvJoin 1] @ EvFlush # [EvT1 47] \<and>
   fst (run_workload demo_world demo_scenario 3 True True demo_schedule) = Some 41 \<and>
   unat (producers demo_scenario) = 2 \<and>
   EvJoin 0 \<in> set [EvSpawn 0, EvSpawn 1, EvReady 0, EvReady 1, EvT0 6, EvStartFlag,
        EvBegin 0 True, EvLog 0 ''AAA'', EvBegin 0 True, EvLog 0 ''AAA'', EvBegin 1 True,
        EvLog 1 ''BBB'', EvJoin 0, EvJoin 1] \<and>
   EvJoin 1 \<in> set [EvSpawn 0, EvSpawn 1, EvReady 0, EvReady 1, EvT0 6, EvStartFlag,
        EvBegin 0 True, EvLog 0 ''AAA'', EvBegin 0 True, EvLog 0 ''AAA'', EvBegin 1 True,
        EvLog 1 ''BBB'', EvJoin 0, EvJoin 1]"
proof -
  let ?pre = "[EvSpawn 0, EvSpawn 1, EvReady 0, EvReady 1, EvT0 6, EvStartFlag,
        EvBegin 0 True, EvLog 0 ''AAA'', EvBegin 0 True, EvLog 0 ''AAA'', EvBegin 1 True,
        EvLog 1 ''BBB'', EvJoin 0, EvJoin 1]"
  have ev: "run_events demo_world
      (snd (run_workload demo_world demo_scenario 3 True True demo_schedule)) =
     ?pre @ EvFlush # [EvT1 47]"
    using demo_events by simp
  have two: "unat (producers demo_scenario) = 2" by (simp add: demo_scenario_def)
  from flush_after_join [OF demo_producers, of demo_world 3 True True demo_schedule] ev
  have "\<forall>j<unat (producers demo_scenario). EvJoin j \<in> set ?pre"
    by blast
  then have "EvJoin 0 \<in> set ?pre" "EvJoin 1 \<in> set ?pre"
    unfolding two by simp_all
  with ev demo_result demo_producers two show ?thesis by blast
qed

theorem payload_deterministic_witness:
  "make_message 0 27 = [] \<and> (3 :: size_t) \<noteq> 0 \<and>
   make_message 3 27 = replicate (unat (3 :: size_t)) (char_of (65 + unat (27 :: size_t) mod 26)) \<and>
   EvLog 1 ''BBB'' \<in> set (run_events demo_world
       (snd (run_workload demo_world demo_scenario 3 True True demo_schedule))) \<and>
   ''BBB'' = make_message (message_bytes demo_scenario) (of_nat 1)"
proof -
  have ev: "EvLog 1 ''BBB'' \<in> set (run_events demo_world
       (snd (run_workload demo_world demo_scenario 3 True True demo_schedule)))"
    by (simp add: demo_events)
  from payload_deterministic [of 27 3 1 "''BBB''" demo_world demo_scenario 3 True True
      demo_schedule] ev
  show ?thesis by simp
qed

theorem get_env_size_t_outcomes_witness:
  "demo_getenv ''LOGIT_BENCH_TIMEOUT_SEC'' = None \<and>
   get_env_size_t demo_getenv demo_stoull ''LOGIT_BENCH_TIMEOUT_SEC'' 600 = Inr 600 \<and>
   demo_getenv ''LOGIT_BENCH_WARMUP'' = Some ''many'' \<and>
   demo_stoull ''many'' = Inl Invalid_argument \<and>
   get_env_size_t demo_getenv demo_stoull ''LOGIT_BENCH_WARMUP'' 4096 = Inr 4096 \<and>
   demo_getenv ''LOGIT_BENCH_TOTAL'' = Some ''500'' \<and> demo_stoull ''500'' = Inr 500 \<and>
   get_env_size_t demo_getenv demo_stoull ''LOGIT_BENCH_TOTAL'' 200000 = Inr 500"
proof -
  have a: "demo_getenv ''LOGIT_BENCH_TIMEOUT_SEC'' = None"
    and b: "demo_getenv ''LOGIT_BENCH_WARMUP'' = Some ''many''"
    and c: "demo_stoull ''many'' = Inl Invalid_argument"
    and d: "demo_getenv ''LOGIT_BENCH_TOTAL'' = Some ''500''"
    and e: "demo_stoull ''500'' = Inr 500"
    by (simp_all add: demo_getenv_def demo_stoull_def)
  from get_env_size_t_outcomes [of demo_getenv "''LOGIT_BENCH_TIMEOUT_SEC''" demo_stoull 600]
    get_env_size_t_outcomes [of demo_getenv "''LOGIT_BENCH_WARMUP''" demo_stoull 4096]
    get_env_size_t_outcomes [of demo_getenv "''LOGIT_BENCH_TOTAL''" demo_stoull 200000]
    a b c d e
  show ?thesis by simp
qed

subsection \<open>The phases of execute_scenario\<close>






lemma complete_length [simp]:
  "length (slots (recorder_complete rec token t)) = length (slots rec)"
  by (simp add: recorder_complete_def)

lemma fold_complete_length [simp]:
  "length (slots (fold (\<lambda>token r. recorder_complete r token t) toks rec)) = length (slots rec)"
  by (induction toks arbitrary: rec) simp_all







subsection \<open>The recorder under the steps of a run\<close>

lemma rec_okD:
  assumes "rec_ok q ths pend R"
  shows "next_slot R = sum_list (map (begun q) ths)"
    and "k < length ths \<Longrightarrow> unat (idx (ths ! k)) = k"
    and "k < length ths \<Longrightarrow> begun q (ths ! k) \<le> unat (q ! k)"
    and "k < length ths \<Longrightarrow> pc (ths ! k) \<noteq> Crashed"
    and "k < length ths \<Longrightarrow> pc (ths ! k) = Logging n token \<Longrightarrow> unat n < unat (q ! k)"
    and "length ths \<le> length q"
    and "sum_list (map unat q) \<le> length (slots R)"
    and "outstanding ths pend token \<Longrightarrow> recording token"
    and "outstanding ths pend token \<Longrightarrow> slot token < next_slot R"
    and "outstanding ths pend token \<Longrightarrow> t_end (slots R ! slot token) = None"
    and "j < next_slot R \<Longrightarrow> t_start (slots R ! j) \<noteq> None"
    and "j < next_slot R \<Longrightarrow> t_end (slots R ! j) = None \<Longrightarrow>
           \<exists>token. outstanding ths pend token \<and> slot token = j"
    and "holding ths k token \<Longrightarrow> holding ths k' token' \<Longrightarrow> k \<noteq> k' \<Longrightarrow> slot token \<noteq> slot token'"
    and "distinct (map slot pend)"
    and "holding ths k token \<Longrightarrow> slot token \<notin> slot ` set pend"
  using assms unfolding rec_ok_def by blast+

lemma rec_okI:
  assumes "next_slot R = sum_list (map (begun q) ths)"
    and "\<And>k. k < length ths \<Longrightarrow> unat (idx (ths ! k)) = k"
    and "\<And>k. k < length ths \<Longrightarrow> begun q (ths ! k) \<le> unat (q ! k)"
    and "\<And>k. k < length ths \<Longrightarrow> pc (ths ! k) \<noteq> Crashed"
    and "\<And>k n token. k < length ths \<Longrightarrow> pc (ths ! k) = Logging n token \<Longrightarrow> unat n < unat (q ! k)"
    and "length ths \<le> length q"
    and "sum_list (map unat q) \<le> length (slots R)"
    and "\<And>token. outstanding ths pend token \<Longrightarrow>
           recording token \<and> slot token < next_slot R \<and> t_end (slots R ! slot token) = None"
    and "\<And>j. j < next_slot R \<Longrightarrow> t_start (slots R ! j) \<noteq> None"
    and "\<And>j. j < next_slot R \<Longrightarrow> t_end (slots R ! j) = None \<Longrightarrow>
           \<exists>token. outstanding ths pend token \<and> slot token = j"
    and "\<And>k k' token token'. holding ths k token \<Longrightarrow> holding ths k' token' \<Longrightarrow> k \<noteq> k' \<Longrightarrow>
           slot token \<noteq> slot token'"
    and "distinct (map slot pend)"
    and "\<And>k token. holding ths k token \<Longrightarrow> slot token \<notin> slot ` set pend"
  shows "rec_ok q ths pend R"
  unfolding rec_ok_def using assms by blast

lemma sum_list_pointwise_le:
  "length xs \<le> length ys \<Longrightarrow> \<forall>i<length xs. xs ! i \<le> ys ! i \<Longrightarrow>
   sum_list xs \<le> sum_list (ys :: nat list)"
proof (induction xs arbitrary: ys)
  case Nil
  then show ?case by simp
next
  case (Cons x xs)
  then obtain y ys' where ys: "ys = y # ys'" by (cases ys) auto
  have "x \<le> y" using Cons.prems(2) ys by (auto dest: spec [of _ 0])
  moreover have "sum_list xs \<le> sum_list ys'"
  proof (rule Cons.IH)
    show "length xs \<le> length ys'" using Cons.prems(1) ys by simp
    show "\<forall>i<length xs. xs ! i \<le> ys' ! i"
      using Cons.prems(2) ys by (auto dest: spec [of _ "Suc _"])
  qed
  ultimately show ?case using ys by simp
qed

lemma sum_list_pointwise_less:
  "length xs \<le> length ys \<Longrightarrow> \<forall>i<length xs. xs ! i \<le> ys ! i \<Longrightarrow>
   k < length xs \<Longrightarrow> xs ! k < ys ! k \<Longrightarrow> sum_list xs < sum_list (ys :: nat list)"
proof -
  assume len: "length xs \<le> length ys" and le: "\<forall>i<length xs. xs ! i \<le> ys ! i"
    and k: "k < length xs" and lt: "xs ! k < ys ! k"
  have "sum_list (xs[k := Suc (xs ! k)]) \<le> sum_list ys"
  proof (rule sum_list_pointwise_le)
    show "length (xs[k := Suc (xs ! k)]) \<le> length ys" using len by simp
    show "\<forall>i<length (xs[k := Suc (xs ! k)]). xs[k := Suc (xs ! k)] ! i \<le> ys ! i"
      using le lt k by (auto simp: nth_list_update)
  qed
  moreover have "sum_list (xs[k := Suc (xs ! k)]) = Suc (sum_list xs)"
    using k by (simp add: sum_list_update)
  ultimately show ?thesis by simp
qed

lemma rec_ok_bound:
  assumes "rec_ok q ths pend R"
  shows "next_slot R \<le> length (slots R)"
proof -
  have "sum_list (map (begun q) ths) \<le> sum_list (map unat q)"
    by (rule sum_list_pointwise_le)
       (use rec_okD(3,6) [OF assms] in simp_all)
  with rec_okD(1,7) [OF assms] show ?thesis by simp
qed

lemma rec_ok_room:
  assumes "rec_ok q ths pend R" "k < length ths" "begun q (ths ! k) < unat (q ! k)"
  shows "next_slot R < length (slots R)"
proof -
  have "sum_list (map (begun q) ths) < sum_list (map unat q)"
    by (rule sum_list_pointwise_less [where k = k])
       (use rec_okD(3,6) [OF assms(1)] assms(2,3) in simp_all)
  with rec_okD(1,7) [OF assms(1)] show ?thesis by simp
qed

lemma holding_update:
  "k < length ths \<Longrightarrow>
   holding (ths[k := th']) k' token \<longleftrightarrow>
     (if k' = k then (\<exists>n. pc th' = Logging n token) else holding ths k' token)"
  by (auto simp: holding_def nth_list_update)

lemma holding_append:
  "pc new = AtEntry \<Longrightarrow> holding (ths @ [new]) k token \<longleftrightarrow> holding ths k token"
  by (auto simp: holding_def nth_append less_Suc_eq)

lemma begun_update:
  "k < length ths \<Longrightarrow>
   sum_list (map (begun q) (ths[k := th'])) + begun q (ths ! k) =
   sum_list (map (begun q) ths) + begun q th'"
proof -
  assume k: "k < length ths"
  have "begun q (ths ! k) \<in> set (map (begun q) ths)"
    using k by (metis length_map nth_map nth_mem)
  then have "begun q (ths ! k) \<le> sum_list (map (begun q) ths)"
    by (intro member_le_sum_list) simp_all
  then show ?thesis using k by (simp add: map_update sum_list_update)
qed

text \<open>A thread changes its program counter between states that hold no token.\<close>

lemma rec_ok_pc:
  assumes ok: "rec_ok q ths pend R" and k: "k < length ths"
    and old: "\<And>n token. pc (ths ! k) \<noteq> Logging n token"
    and new: "\<And>n token. pc th' \<noteq> Logging n token" "pc th' \<noteq> Crashed"
    and idx: "idx th' = idx (ths ! k)"
    and bg: "begun q th' = begun q (ths ! k)"
  shows "rec_ok q (ths[k := th']) pend R"
proof -
  have hold: "holding (ths[k := th']) k' token \<longleftrightarrow> holding ths k' token" for k' token
    using k old new(1) by (cases "k' = k") (auto simp: holding_def nth_list_update)
  then have out: "outstanding (ths[k := th']) pend token \<longleftrightarrow> outstanding ths pend token" for token
    by (simp add: outstanding_def)
  have sum: "sum_list (map (begun q) (ths[k := th'])) = sum_list (map (begun q) ths)"
    using begun_update [OF k, of q th'] bg by simp
  show ?thesis
  proof (rule rec_okI)
    show "next_slot R = sum_list (map (begun q) (ths[k := th']))"
      using rec_okD(1) [OF ok] sum by simp
  next
    fix j assume "j < length (ths[k := th'])"
    then have j: "j < length ths" by simp
    show "unat (idx (ths[k := th'] ! j)) = j"
      using rec_okD(2) [OF ok j] k idx by (simp add: nth_list_update)
    show "begun q (ths[k := th'] ! j) \<le> unat (q ! j)"
      using rec_okD(3) [OF ok j] k bg by (simp add: nth_list_update)
    show "pc (ths[k := th'] ! j) \<noteq> Crashed"
      using rec_okD(4) [OF ok j] k new(2) by (simp add: nth_list_update)
    show "unat n < unat (q ! j)" if "pc (ths[k := th'] ! j) = Logging n token" for n token
      using rec_okD(5) [OF ok j, of n token] k new(1) that
      by (auto simp: nth_list_update split: if_splits)
  next
    show "length (ths[k := th']) \<le> length q" using rec_okD(6) [OF ok] by simp
    show "sum_list (map unat q) \<le> length (slots R)" using rec_okD(7) [OF ok] .
    show "distinct (map slot pend)" using rec_okD(14) [OF ok] .
  next
    fix token assume "outstanding (ths[k := th']) pend token"
    then have "outstanding ths pend token" by (simp add: out)
    then show "recording token \<and> slot token < next_slot R \<and> t_end (slots R ! slot token) = None"
      using rec_okD(8,9,10) [OF ok] by blast
  next
    fix j assume "j < next_slot R"
    then show "t_start (slots R ! j) \<noteq> None" using rec_okD(11) [OF ok] by blast
  next
    fix j assume "j < next_slot R" "t_end (slots R ! j) = None"
    then show "\<exists>token. outstanding (ths[k := th']) pend token \<and> slot token = j"
      using rec_okD(12) [OF ok] by (simp add: out)
  next
    fix a b token token'
    assume "holding (ths[k := th']) a token" "holding (ths[k := th']) b token'" "a \<noteq> b"
    then show "slot token \<noteq> slot token'" using rec_okD(13) [OF ok] by (simp add: hold)
  next
    fix a token assume "holding (ths[k := th']) a token"
    then show "slot token \<notin> slot ` set pend" using rec_okD(15) [OF ok] by (simp add: hold)
  qed
qed

text \<open>The controlling thread spawns a producer.\<close>

lemma rec_ok_spawn:
  assumes ok: "rec_ok q ths pend R" and len: "length ths < length q"
    and new: "pc new = AtEntry" "unat (idx new) = length ths"
  shows "rec_ok q (ths @ [new]) pend R"
proof -
  have hold: "holding (ths @ [new]) k' token \<longleftrightarrow> holding ths k' token" for k' token
    using new(1) by (rule holding_append)
  then have out: "outstanding (ths @ [new]) pend token \<longleftrightarrow> outstanding ths pend token" for token
    by (simp add: outstanding_def)
  have b0: "begun q new = 0" using new(1) by (simp add: begun_def)
  show ?thesis
  proof (rule rec_okI)
    show "next_slot R = sum_list (map (begun q) (ths @ [new]))"
      using rec_okD(1) [OF ok] b0 by simp
  next
    fix j assume "j < length (ths @ [new])"
    then consider "j < length ths" | "j = length ths" by fastforce
    then show "unat (idx ((ths @ [new]) ! j)) = j"
      using rec_okD(2) [OF ok] new(2) by cases (simp_all add: nth_append)
  next
    fix j assume "j < length (ths @ [new])"
    then consider "j < length ths" | "j = length ths" by fastforce
    then show "begun q ((ths @ [new]) ! j) \<le> unat (q ! j)"
      using rec_okD(3) [OF ok] b0 by cases (simp_all add: nth_append)
  next
    fix j assume "j < length (ths @ [new])"
    then consider "j < length ths" | "j = length ths" by fastforce
    then show "pc ((ths @ [new]) ! j) \<noteq> Crashed"
      using rec_okD(4) [OF ok] new(1) by cases (simp_all add: nth_append)
  next
    fix j n token assume "j < length (ths @ [new])" "pc ((ths @ [new]) ! j) = Logging n token"
    then show "unat n < unat (q ! j)"
      using rec_okD(5) [OF ok, of j n token] new(1)
      by (cases "j < length ths") (auto simp: nth_append less_Suc_eq)
  next
    show "length (ths @ [new]) \<le> length q" using len by simp
    show "sum_list (map unat q) \<le> length (slots R)" using rec_okD(7) [OF ok] .
    show "distinct (map slot pend)" using rec_okD(14) [OF ok] .
  next
    fix token assume "outstanding (ths @ [new]) pend token"
    then have "outstanding ths pend token" by (simp add: out)
    then show "recording token \<and> slot token < next_slot R \<and> t_end (slots R ! slot token) = None"
      using rec_okD(8,9,10) [OF ok] by blast
  next
    fix j assume "j < next_slot R"
    then show "t_start (slots R ! j) \<noteq> None" using rec_okD(11) [OF ok] by blast
  next
    fix j assume "j < next_slot R" "t_end (slots R ! j) = None"
    then show "\<exists>token. outstanding (ths @ [new]) pend token \<and> slot token = j"
      using rec_okD(12) [OF ok] by (simp add: out)
  next
    fix a b token token'
    assume "holding (ths @ [new]) a token" "holding (ths @ [new]) b token'" "a \<noteq> b"
    then show "slot token \<noteq> slot token'" using rec_okD(13) [OF ok] by (simp add: hold)
  next
    fix a token assume "holding (ths @ [new]) a token"
    then show "slot token \<notin> slot ` set pend" using rec_okD(15) [OF ok] by (simp add: hold)
  qed
qed

lemma complete_recording:
  assumes "recording token" "slot token < length (slots R)"
  shows "next_slot (recorder_complete R token t) = next_slot R"
    and "j \<noteq> slot token \<Longrightarrow> slots (recorder_complete R token t) ! j = slots R ! j"
    and "t_start (slots (recorder_complete R token t) ! slot token) = t_start (slots R ! slot token)"
    and "t_end (slots (recorder_complete R token t) ! slot token) = Some t"
  using assms by (simp_all add: recorder_complete_def)

lemma complete_start:
  assumes "recording token" "slot token < length (slots R)"
  shows "t_start (slots (recorder_complete R token t) ! j) = t_start (slots R ! j)"
  using complete_recording(2) [OF assms, of j t] complete_recording(3) [OF assms, of t]
  by (cases "j = slot token") simp_all

text \<open>The consumer thread completes the oldest outstanding message.\<close>

lemma rec_ok_sink:
  assumes ok: "rec_ok q ths (token # rest) R"
  shows "rec_ok q ths rest (recorder_complete R token t)"
proof -
  let ?R = "recorder_complete R token t"
  have o: "outstanding ths (token # rest) token" by (simp add: outstanding_def)
  have rec: "recording token" using rec_okD(8) [OF ok o] .
  have lt: "slot token < next_slot R" using rec_okD(9) [OF ok o] .
  then have len: "slot token < length (slots R)" using rec_ok_bound [OF ok] by simp
  note c = complete_recording [OF rec len]
  have out: "outstanding ths (token # rest) token'" if "outstanding ths rest token'" for token'
    using that by (auto simp: outstanding_def)
  have other: "slot token' \<noteq> slot token" if "outstanding ths rest token'" for token'
  proof -
    from that consider k where "holding ths k token'" | "token' \<in> set rest"
      by (auto simp: outstanding_def)
    then show ?thesis
    proof cases
      case 1
      then show ?thesis using rec_okD(15) [OF ok 1] by auto
    next
      case 2
      then have "slot token' \<in> slot ` set rest" by (rule imageI)
      then show ?thesis using rec_okD(14) [OF ok] by auto
    qed
  qed
  show ?thesis
  proof (rule rec_okI)
    show "next_slot ?R = sum_list (map (begun q) ths)" using rec_okD(1) [OF ok] c(1) by simp
    show "length ths \<le> length q" using rec_okD(6) [OF ok] .
    show "sum_list (map unat q) \<le> length (slots ?R)" using rec_okD(7) [OF ok] by simp
    show "distinct (map slot rest)" using rec_okD(14) [OF ok] by simp
  next
    fix k assume k: "k < length ths"
    show "unat (idx (ths ! k)) = k" using rec_okD(2) [OF ok k] .
    show "begun q (ths ! k) \<le> unat (q ! k)" using rec_okD(3) [OF ok k] .
    show "pc (ths ! k) \<noteq> Crashed" using rec_okD(4) [OF ok k] .
    show "unat n < unat (q ! k)" if "pc (ths ! k) = Logging n token'" for n token'
      using rec_okD(5) [OF ok k that] .
  next
    fix token' assume o': "outstanding ths rest token'"
    have "slots ?R ! slot token' = slots R ! slot token'" using c(2) other [OF o'] by simp
    then show "recording token' \<and> slot token' < next_slot ?R \<and>
        t_end (slots ?R ! slot token') = None"
      using rec_okD(8,9,10) [OF ok out [OF o']] c(1) by simp
  next
    fix j assume "j < next_slot ?R"
    then have "j < next_slot R" using c(1) by simp
    then show "t_start (slots ?R ! j) \<noteq> None"
      using rec_okD(11) [OF ok] complete_start [OF rec len] by simp
  next
    fix j assume j: "j < next_slot ?R" and e: "t_end (slots ?R ! j) = None"
    have ne: "j \<noteq> slot token" using e c(4) by auto
    then have "t_end (slots R ! j) = None" using e c(2) by simp
    moreover have "j < next_slot R" using j c(1) by simp
    ultimately obtain token' where t': "outstanding ths (token # rest) token'" "slot token' = j"
      using rec_okD(12) [OF ok] by blast
    then have "token' \<noteq> token" using ne by auto
    with t' show "\<exists>token'. outstanding ths rest token' \<and> slot token' = j"
      by (auto simp: outstanding_def)
  next
    fix a b ta tb assume "holding ths a ta" "holding ths b tb" "a \<noteq> b"
    then show "slot ta \<noteq> slot tb" using rec_okD(13) [OF ok] by blast
  next
    fix a ta assume "holding ths a ta"
    then show "slot ta \<notin> slot ` set rest" using rec_okD(15) [OF ok] by auto
  qed
qed

text \<open>\<open>adapter.flush()\<close> completes every outstanding message.\<close>

lemma rec_ok_flush:
  "rec_ok q ths pend R \<Longrightarrow>
   rec_ok q ths [] (fold (\<lambda>token r. recorder_complete r token t) pend R)"
proof (induction pend arbitrary: R)
  case Nil
  then show ?case by simp
next
  case (Cons token rest)
  from rec_ok_sink [OF Cons.prems] Cons.IH show ?case by simp
qed

text \<open>A producer leaves \<open>adapter.log\<close>: the token goes to the sink.\<close>

lemma rec_ok_logged:
  assumes ok: "rec_ok q ths pend R" and k: "k < length ths"
    and pc: "pc (ths ! k) = Logging n token"
  shows "rec_ok q (ths[k := (ths ! k)\<lparr>pc := Loop (n + 1)\<rparr>]) (pend @ [token]) R"
    and "rec_ok q (ths[k := (ths ! k)\<lparr>pc := Loop (n + 1)\<rparr>]) pend (recorder_complete R token t)"
proof -
  let ?th = "(ths ! k)\<lparr>pc := Loop (n + 1)\<rparr>"
  let ?ths = "ths[k := ?th]"
  let ?R = "recorder_complete R token t"
  have hk: "holding ths k token" using k pc by (auto simp: holding_def)
  then have o: "outstanding ths pend token" by (auto simp: outstanding_def)
  have rec: "recording token" using rec_okD(8) [OF ok o] .
  have lt: "slot token < next_slot R" using rec_okD(9) [OF ok o] .
  then have len: "slot token < length (slots R)" using rec_ok_bound [OF ok] by simp
  note c = complete_recording [OF rec len]
  have nq: "unat n < unat (q ! k)" using rec_okD(5) [OF ok k pc] .
  have suc: "unat (n + 1) = Suc (unat n)" using nq by (rule unat_succ_below_nat)
  have bg: "begun q ?th = begun q (ths ! k)" using pc suc by (simp add: begun_def)
  have hold: "holding ?ths k' token' \<longleftrightarrow> k' \<noteq> k \<and> holding ths k' token'" for k' token'
    using k by (cases "k' = k") (auto simp: holding_def nth_list_update)
  have only: "token' = token" if "holding ths k token'" for token'
    using that pc by (auto simp: holding_def)
  have sum: "sum_list (map (begun q) ?ths) = sum_list (map (begun q) ths)"
    using begun_update [OF k, of q ?th] bg by simp
  have threads:
    "unat (idx (?ths ! j)) = j" "begun q (?ths ! j) \<le> unat (q ! j)" "pc (?ths ! j) \<noteq> Crashed"
    "\<And>m token'. pc (?ths ! j) = Logging m token' \<Longrightarrow> unat m < unat (q ! j)"
    if "j < length ?ths" for j
  proof -
    from that have j: "j < length ths" by simp
    show "unat (idx (?ths ! j)) = j"
      using rec_okD(2) [OF ok j] k by (simp add: nth_list_update)
    show "begun q (?ths ! j) \<le> unat (q ! j)"
    proof (cases "j = k")
      case True
      then show ?thesis using rec_okD(3) [OF ok k] k bg by simp
    next
      case False
      then show ?thesis using rec_okD(3) [OF ok j] by simp
    qed
    show "pc (?ths ! j) \<noteq> Crashed"
      using rec_okD(4) [OF ok j] k by (simp add: nth_list_update)
    show "unat m < unat (q ! j)" if "pc (?ths ! j) = Logging m token'" for m token'
      using rec_okD(5) [OF ok j, of m token'] k that
      by (auto simp: nth_list_update split: if_splits)
  qed
  have apart: "slot token' \<noteq> slot token" if "k' \<noteq> k" "holding ths k' token'" for k' token'
    using rec_okD(13) [OF ok that(2) hk that(1)] .
  have fresh: "slot token \<notin> slot ` set pend" using rec_okD(15) [OF ok hk] .
  show "rec_ok q ?ths (pend @ [token]) R"
  proof (rule rec_okI)
    show "next_slot R = sum_list (map (begun q) ?ths)" using rec_okD(1) [OF ok] sum by simp
    show "length ?ths \<le> length q" using rec_okD(6) [OF ok] by simp
    show "sum_list (map unat q) \<le> length (slots R)" using rec_okD(7) [OF ok] .
    show "distinct (map slot (pend @ [token]))" using rec_okD(14) [OF ok] fresh by simp
  next
    fix j assume j: "j < length ?ths"
    show "unat (idx (?ths ! j)) = j" "begun q (?ths ! j) \<le> unat (q ! j)"
      "pc (?ths ! j) \<noteq> Crashed"
      using threads(1-3) [OF j] .
    show "unat m < unat (q ! j)" if "pc (?ths ! j) = Logging m token'" for m token'
      using threads(4) [OF j that] .
  next
    fix token' assume "outstanding ?ths (pend @ [token]) token'"
    then have "outstanding ths pend token'" using o by (auto simp: outstanding_def hold)
    then show "recording token' \<and> slot token' < next_slot R \<and>
        t_end (slots R ! slot token') = None"
      using rec_okD(8,9,10) [OF ok] by blast
  next
    fix j assume "j < next_slot R"
    then show "t_start (slots R ! j) \<noteq> None" using rec_okD(11) [OF ok] by blast
  next
    fix j assume "j < next_slot R" "t_end (slots R ! j) = None"
    then obtain token' where t': "outstanding ths pend token'" "slot token' = j"
      using rec_okD(12) [OF ok] by blast
    from t'(1) consider k' where "holding ths k' token'" | "token' \<in> set pend"
      by (auto simp: outstanding_def)
    then have "outstanding ?ths (pend @ [token]) token'"
    proof cases
      case 1
      show ?thesis
      proof (cases "k' = k")
        case True
        with 1 have "token' = token" by (intro only) simp
        then show ?thesis by (simp add: outstanding_def)
      next
        case False
        with 1 have "holding ?ths k' token'" by (simp add: hold)
        then show ?thesis unfolding outstanding_def by blast
      qed
    next
      case 2
      then show ?thesis by (simp add: outstanding_def)
    qed
    with t'(2) show "\<exists>token'. outstanding ?ths (pend @ [token]) token' \<and> slot token' = j"
      by blast
  next
    fix a b ta tb assume h: "holding ?ths a ta" "holding ?ths b tb" "a \<noteq> b"
    then have "holding ths a ta" "holding ths b tb" by (simp_all add: hold)
    from rec_okD(13) [OF ok this h(3)] show "slot ta \<noteq> slot tb" .
  next
    fix a ta assume h: "holding ?ths a ta"
    then have h': "a \<noteq> k" "holding ths a ta" by (simp_all add: hold)
    have "slot ta \<notin> slot ` set pend" using rec_okD(15) [OF ok h'(2)] .
    moreover have "slot ta \<noteq> slot token" using apart [OF h'] .
    ultimately show "slot ta \<notin> slot ` set (pend @ [token])" by simp
  qed
  have other: "slot token' \<noteq> slot token" if "outstanding ?ths pend token'" for token'
  proof -
    from that consider k' where "k' \<noteq> k" "holding ths k' token'" | "token' \<in> set pend"
      by (auto simp: outstanding_def hold)
    then show ?thesis
    proof cases
      case 1
      then show ?thesis by (rule apart)
    next
      case 2
      then have "slot token' \<in> slot ` set pend" by (rule imageI)
      then show ?thesis using fresh by auto
    qed
  qed
  show "rec_ok q ?ths pend ?R"
  proof (rule rec_okI)
    show "next_slot ?R = sum_list (map (begun q) ?ths)" using rec_okD(1) [OF ok] sum c(1) by simp
    show "length ?ths \<le> length q" using rec_okD(6) [OF ok] by simp
    show "sum_list (map unat q) \<le> length (slots ?R)" using rec_okD(7) [OF ok] by simp
    show "distinct (map slot pend)" using rec_okD(14) [OF ok] .
  next
    fix j assume j: "j < length ?ths"
    show "unat (idx (?ths ! j)) = j" "begun q (?ths ! j) \<le> unat (q ! j)"
      "pc (?ths ! j) \<noteq> Crashed"
      using threads(1-3) [OF j] .
    show "unat m < unat (q ! j)" if "pc (?ths ! j) = Logging m token'" for m token'
      using threads(4) [OF j that] .
  next
    fix token' assume o': "outstanding ?ths pend token'"
    then have old: "outstanding ths pend token'" by (auto simp: outstanding_def hold)
    have "slots ?R ! slot token' = slots R ! slot token'" using c(2) other [OF o'] by simp
    then show "recording token' \<and> slot token' < next_slot ?R \<and>
        t_end (slots ?R ! slot token') = None"
      using rec_okD(8,9,10) [OF ok old] c(1) by simp
  next
    fix j assume "j < next_slot ?R"
    then have "j < next_slot R" using c(1) by simp
    then show "t_start (slots ?R ! j) \<noteq> None"
      using rec_okD(11) [OF ok] complete_start [OF rec len] by simp
  next
    fix j assume j: "j < next_slot ?R" and e: "t_end (slots ?R ! j) = None"
    have ne: "j \<noteq> slot token" using e c(4) by auto
    then have "t_end (slots R ! j) = None" using e c(2) by simp
    moreover have "j < next_slot R" using j c(1) by simp
    ultimately obtain token' where t': "outstanding ths pend token'" "slot token' = j"
      using rec_okD(12) [OF ok] by blast
    have "\<not> holding ths k token'"
    proof
      assume "holding ths k token'"
      then have "token' = token" by (rule only)
      with t'(2) ne show False by simp
    qed
    then have "outstanding ?ths pend token'"
      using t'(1) by (auto simp: outstanding_def hold)
    with t'(2) show "\<exists>token'. outstanding ?ths pend token' \<and> slot token' = j" by blast
  next
    fix a b ta tb assume h: "holding ?ths a ta" "holding ?ths b tb" "a \<noteq> b"
    then have "holding ths a ta" "holding ths b tb" by (simp_all add: hold)
    from rec_okD(13) [OF ok this h(3)] show "slot ta \<noteq> slot tb" .
  next
    fix a ta assume "holding ?ths a ta"
    then have "holding ths a ta" by (simp add: hold)
    from rec_okD(15) [OF ok this] show "slot ta \<notin> slot ` set pend" .
  qed
qed

text \<open>A producer calls \<open>recorder.begin\<close> with recording: there is a free slot.\<close>

lemma rec_ok_begin:
  assumes ok: "rec_ok q ths pend R" and k: "k < length ths"
    and pc: "pc (ths ! k) = Loop n" and more: "n < q ! unat (idx (ths ! k))"
  shows "\<exists>token R'. recorder_begin R True t = Some (token, R') \<and>
           rec_ok q (ths[k := (ths ! k)\<lparr>pc := Logging n token\<rparr>]) pend R'"
proof -
  let ?token = "\<lparr>slot = next_slot R, recording = True\<rparr>"
  let ?R = "R\<lparr>slots := (slots R)[next_slot R := \<lparr>t_start = Some t, t_end = None\<rparr>],
             next_slot := Suc (next_slot R)\<rparr>"
  let ?th = "(ths ! k)\<lparr>pc := Logging n ?token\<rparr>"
  let ?ths = "ths[k := ?th]"
  have ik: "unat (idx (ths ! k)) = k" using rec_okD(2) [OF ok k] .
  have nq: "unat n < unat (q ! k)" using more ik by (simp add: word_less_nat_alt)
  have b: "begun q (ths ! k) = unat n" using pc by (simp add: begun_def)
  have room: "next_slot R < length (slots R)"
    using rec_ok_room [OF ok k] b nq by simp
  then have beg: "recorder_begin R True t = Some (?token, ?R)"
    by (simp add: recorder_begin_def)
  have bg: "begun q ?th = Suc (begun q (ths ! k))" using b by (simp add: begun_def)
  have sum: "sum_list (map (begun q) ?ths) = Suc (sum_list (map (begun q) ths))"
    using begun_update [OF k, of q ?th] bg by simp
  have hold: "holding ?ths k' token' \<longleftrightarrow>
      (if k' = k then token' = ?token else holding ths k' token')" for k' token'
    using k by (cases "k' = k") (auto simp: holding_def nth_list_update)
  have none: "\<not> holding ths k token'" for token'
    using pc by (auto simp: holding_def)
  have out: "outstanding ?ths pend token' \<longleftrightarrow> token' = ?token \<or> outstanding ths pend token'"
    for token'
  proof
    assume "outstanding ?ths pend token'"
    then consider k' where "holding ?ths k' token'" | "token' \<in> set pend"
      by (auto simp: outstanding_def)
    then show "token' = ?token \<or> outstanding ths pend token'"
    proof cases
      case 1
      then show ?thesis by (cases "k' = k") (auto simp: hold outstanding_def)
    next
      case 2
      then show ?thesis by (simp add: outstanding_def)
    qed
  next
    assume "token' = ?token \<or> outstanding ths pend token'"
    then consider "token' = ?token" | k' where "holding ths k' token'" | "token' \<in> set pend"
      by (auto simp: outstanding_def)
    then show "outstanding ?ths pend token'"
    proof cases
      case 1
      then have "holding ?ths k token'" by (simp add: hold)
      then show ?thesis unfolding outstanding_def by blast
    next
      case 2
      then have "k' \<noteq> k" using none by auto
      with 2 have "holding ?ths k' token'" by (simp add: hold)
      then show ?thesis unfolding outstanding_def by blast
    next
      case 3
      then show ?thesis by (simp add: outstanding_def)
    qed
  qed
  have below: "slot token' < next_slot R" if "outstanding ths pend token'" for token'
    using rec_okD(9) [OF ok that] .
  have held_below: "slot token' < next_slot R" if "holding ths k' token'" for k' token'
  proof -
    have "outstanding ths pend token'" unfolding outstanding_def using that by blast
    then show ?thesis by (rule below)
  qed
  have pend_below: "slot token' < next_slot R" if "token' \<in> set pend" for token'
  proof -
    have "outstanding ths pend token'" unfolding outstanding_def using that by blast
    then show ?thesis by (rule below)
  qed
  have "rec_ok q ?ths pend ?R"
  proof (rule rec_okI)
    show "next_slot ?R = sum_list (map (begun q) ?ths)" using rec_okD(1) [OF ok] sum by simp
    show "length ?ths \<le> length q" using rec_okD(6) [OF ok] by simp
    show "sum_list (map unat q) \<le> length (slots ?R)" using rec_okD(7) [OF ok] by simp
    show "distinct (map slot pend)" using rec_okD(14) [OF ok] .
  next
    fix j assume "j < length ?ths"
    then have j: "j < length ths" by simp
    show "unat (idx (?ths ! j)) = j"
      using rec_okD(2) [OF ok j] k by (simp add: nth_list_update)
    show "begun q (?ths ! j) \<le> unat (q ! j)"
    proof (cases "j = k")
      case True
      then show ?thesis using k bg b nq by simp
    next
      case False
      then show ?thesis using rec_okD(3) [OF ok j] by simp
    qed
    show "pc (?ths ! j) \<noteq> Crashed"
      using rec_okD(4) [OF ok j] k by (simp add: nth_list_update)
    show "unat m < unat (q ! j)" if "pc (?ths ! j) = Logging m token'" for m token'
      using rec_okD(5) [OF ok j, of m token'] k that nq
      by (auto simp: nth_list_update split: if_splits)
  next
    fix token' assume "outstanding ?ths pend token'"
    then consider "token' = ?token" | "outstanding ths pend token'" by (auto simp: out)
    then show "recording token' \<and> slot token' < next_slot ?R \<and>
        t_end (slots ?R ! slot token') = None"
    proof cases
      case 1
      then show ?thesis using room by simp
    next
      case 2
      then show ?thesis using rec_okD(8,10) [OF ok 2] below [OF 2] by simp
    qed
  next
    fix j assume "j < next_slot ?R"
    then consider "j = next_slot R" | "j < next_slot R" by fastforce
    then show "t_start (slots ?R ! j) \<noteq> None"
      using rec_okD(11) [OF ok] room by cases simp_all
  next
    fix j assume "j < next_slot ?R" and e: "t_end (slots ?R ! j) = None"
    then consider "j = next_slot R" | "j < next_slot R" by fastforce
    then show "\<exists>token'. outstanding ?ths pend token' \<and> slot token' = j"
    proof cases
      case 1
      have "outstanding ?ths pend ?token" by (simp add: out)
      moreover have "slot ?token = j" using 1 by simp
      ultimately show ?thesis by blast
    next
      case 2
      then have "t_end (slots R ! j) = None" using e by simp
      from rec_okD(12) [OF ok 2 this] obtain token' where
        "outstanding ths pend token'" "slot token' = j" by blast
      then have "outstanding ?ths pend token'" "slot token' = j" by (simp_all add: out)
      then show ?thesis by blast
    qed
  next
    fix a c ta tc assume h: "holding ?ths a ta" "holding ?ths c tc" "a \<noteq> c"
    consider "a = k" | "c = k" | "a \<noteq> k" "c \<noteq> k" by blast
    then show "slot ta \<noteq> slot tc"
    proof cases
      case 1
      then have "ta = ?token" "holding ths c tc" using h by (simp_all add: hold)
      then show ?thesis using held_below [of c tc] by simp
    next
      case 2
      then have "tc = ?token" "holding ths a ta" using h by (simp_all add: hold)
      then show ?thesis using held_below [of a ta] by simp
    next
      case 3
      then have "holding ths a ta" "holding ths c tc" using h by (simp_all add: hold)
      from rec_okD(13) [OF ok this h(3)] show ?thesis .
    qed
  next
    fix a ta assume h: "holding ?ths a ta"
    show "slot ta \<notin> slot ` set pend"
    proof (cases "a = k")
      case True
      then have "ta = ?token" using h by (simp add: hold)
      moreover have "\<forall>token'\<in>set pend. slot token' \<noteq> next_slot R"
        using pend_below by fastforce
      ultimately show ?thesis by auto
    next
      case False
      then have "holding ths a ta" using h by (simp add: hold)
      from rec_okD(15) [OF ok this] show ?thesis .
    qed
  qed
  with beg show ?thesis by blast
qed

subsection \<open>The recorder during a run\<close>

lemma inv_rec_cv [simp]:
  "inv_rec (cv_block a st) = inv_rec st"
  "inv_rec (cv_notify_one st) = inv_rec st"
  "inv_rec (cv_notify_all st) = inv_rec st"
  "inv_rec (cv_wake a st) = inv_rec st"
  "inv_rec (cv_deliver a st) = inv_rec st"
  by (simp_all add: inv_rec_def)

lemma inv_rec_main:
  assumes ok: "inv_rec st" and thr: "inv_threads sc st"
    and q: "length (per_thread st) = unat (producers sc)"
  shows "inv_rec (main_step sc md st)"
proof (cases "ctl st")
  case (Spawning i)
  show ?thesis
  proof (cases "i < producers sc")
    case True
    have len: "unat i = length (threads st)" using inv_threadsD(3) [OF thr Spawning] .
    have "length (threads st) < length (per_thread st)"
      using True len q by (simp add: word_less_nat_alt)
    then have "rec_ok (per_thread st) (threads st @ [\<lparr>idx = i, message = [], pc = AtEntry\<rparr>])
        (pending (adapter st)) (recorder st)"
      using ok len unfolding inv_rec_def by (intro rec_ok_spawn) simp_all
    then show ?thesis using Spawning True
      by (simp add: inv_rec_def main_step_def emit_def)
  next
    case False
    then show ?thesis using ok Spawning by (simp add: inv_rec_def main_step_def)
  qed
next
  case WaitReady
  then show ?thesis using ok
    by (simp add: inv_rec_def main_step_def emit_def Let_def)
next
  case (Joining k)
  show ?thesis
  proof (cases "k < length (threads st)")
    case True
    then show ?thesis using ok Joining by (simp add: inv_rec_def main_step_def emit_def)
  next
    case False
    have "rec_ok (per_thread st) (threads st) []
        (fold (\<lambda>token r. recorder_complete r token (now st)) (pending (adapter st)) (recorder st))"
      using ok unfolding inv_rec_def by (rule rec_ok_flush)
    then show ?thesis using Joining False
      by (simp add: inv_rec_def main_step_def emit_def adapter_flush_def)
  qed
next
  case AfterFlush
  then show ?thesis using ok by (simp add: inv_rec_def main_step_def emit_def)
next
  case (Returned d)
  then show ?thesis using ok by (simp add: main_step_def)
qed

lemma inv_rec_producer:
  assumes ok: "inv_rec st"
  shows "inv_rec (producer_step sc True k st)"
proof (cases "k < length (threads st)")
  case False
  then show ?thesis using ok by (simp add: producer_step_def)
next
  case k: True
  let ?q = "per_thread st" and ?ths = "threads st" and ?pend = "pending (adapter st)"
  let ?th = "threads st ! k"
  note rk = ok [unfolded inv_rec_def]
  have ik: "unat (idx ?th) = k" using rec_okD(2) [OF rk k] .
  show ?thesis
  proof (cases "pc ?th")
    case AtEntry
    let ?th' = "?th\<lparr>message := make_message (message_bytes sc) (idx ?th),
                    pc := (if start_flag st then Loop 0 else Waiting)\<rparr>"
    have "rec_ok ?q (?ths[k := ?th']) ?pend (recorder st)"
      using rk k AtEntry by (intro rec_ok_pc) (simp_all add: begun_def)
    then show ?thesis using k AtEntry
      by (simp add: inv_rec_def producer_step_def emit_def Let_def)
  next
    case Waiting
    have "rec_ok ?q (?ths[k := ?th\<lparr>pc := Loop 0\<rparr>]) ?pend (recorder st)"
      using rk k Waiting by (intro rec_ok_pc) (simp_all add: begun_def)
    then show ?thesis using k Waiting ok
      by (simp add: inv_rec_def producer_step_def set_pc_def Let_def)
  next
    case (Loop n)
    show ?thesis
    proof (cases "n < ?q ! unat (idx ?th)")
      case True
      from rec_ok_begin [OF rk k Loop True, of "now st"] obtain token R' where
        b: "recorder_begin (recorder st) True (now st) = Some (token, R')"
        and r: "rec_ok ?q (?ths[k := ?th\<lparr>pc := Logging n token\<rparr>]) ?pend R'"
        by blast
      show ?thesis using k Loop True b r
        by (simp add: inv_rec_def producer_step_def set_pc_def emit_def Let_def)
    next
      case False
      have "unat n \<le> unat (?q ! k)" using rec_okD(3) [OF rk k] Loop by (simp add: begun_def)
      moreover have "unat (?q ! k) \<le> unat n"
        using False ik by (simp add: word_less_nat_alt)
      ultimately have eq: "unat n = unat (?q ! k)" by simp
      have "rec_ok ?q (?ths[k := ?th\<lparr>pc := Finished\<rparr>]) ?pend (recorder st)"
        using rk k Loop eq ik by (intro rec_ok_pc) (simp_all add: begun_def)
      then show ?thesis using k Loop False
        by (simp add: inv_rec_def producer_step_def set_pc_def Let_def)
    qed
  next
    case (Logging n token)
    note l = rec_ok_logged [OF rk k Logging]
    show ?thesis
    proof (cases "is_async (adapter st)")
      case True
      then show ?thesis using k Logging l(1)
        by (simp add: inv_rec_def producer_step_def set_pc_def emit_def adapter_log_def Let_def)
    next
      case False
      then show ?thesis using k Logging l(2) [of "now st"]
        by (simp add: inv_rec_def producer_step_def set_pc_def emit_def adapter_log_def Let_def)
    qed
  next
    case Finished
    then show ?thesis using ok k by (simp add: producer_step_def Let_def)
  next
    case Crashed
    then show ?thesis using ok k by (simp add: producer_step_def Let_def)
  qed
qed

lemma inv_rec_sink: "inv_rec st \<Longrightarrow> inv_rec (adapter_sink st)"
proof (cases "pending (adapter st)")
  case Nil
  assume "inv_rec st"
  with Nil show ?thesis by (simp add: adapter_sink_def)
next
  case (Cons token rest)
  assume "inv_rec st"
  then have "rec_ok (per_thread st) (threads st) (token # rest) (recorder st)"
    using Cons by (simp add: inv_rec_def)
  from rec_ok_sink [OF this, of "now st"] show ?thesis using Cons
    by (simp add: inv_rec_def adapter_sink_def)
qed

lemma inv_rec_now: "inv_rec (st\<lparr>now := t\<rparr>) = inv_rec st"
  by (simp add: inv_rec_def)

lemma inv_rec_step:
  assumes "inv_rec st" "inv_threads sc st" "length (per_thread st) = unat (producers sc)"
  shows "inv_rec (step sc True md st a)"
proof (cases "fst a")
  case Main
  have "inv_rec (main_step sc md (st\<lparr>now := now st + int (snd a)\<rparr>))"
    using assms by (intro inv_rec_main) (simp_all add: inv_rec_now inv_threads_world_update)
  with Main show ?thesis by (simp add: step_def Let_def)
next
  case (Producer k)
  have "inv_rec (producer_step sc True k (st\<lparr>now := now st + int (snd a)\<rparr>))"
    using assms(1) by (intro inv_rec_producer) (simp add: inv_rec_now)
  with Producer show ?thesis by (simp add: step_def Let_def)
next
  case Sink
  have "inv_rec (adapter_sink (st\<lparr>now := now st + int (snd a)\<rparr>))"
    using assms(1) by (intro inv_rec_sink) (simp add: inv_rec_now)
  with Sink show ?thesis by (simp add: step_def Let_def)
next
  case (Deliver b)
  with assms(1) show ?thesis by (simp add: step_def Let_def inv_rec_now)
next
  case (Spurious b)
  with assms(1) show ?thesis by (simp add: step_def Let_def inv_rec_now)
qed

lemma complete_idle: "\<not> recording token \<Longrightarrow> recorder_complete R token t = R"
  by (simp add: recorder_complete_def)

lemma fold_complete_idle:
  "\<forall>token\<in>set toks. \<not> recording token \<Longrightarrow>
   fold (\<lambda>token r. recorder_complete r token t) toks R = R"
  by (induction toks arbitrary: R) (simp_all add: complete_idle)

lemma inv_idle_cv [simp]:
  "inv_idle R0 (cv_block a st) = inv_idle R0 st"
  "inv_idle R0 (cv_notify_one st) = inv_idle R0 st"
  "inv_idle R0 (cv_notify_all st) = inv_idle R0 st"
  "inv_idle R0 (cv_wake a st) = inv_idle R0 st"
  "inv_idle R0 (cv_deliver a st) = inv_idle R0 st"
  by (simp_all add: inv_idle_def)

lemma inv_idleD:
  assumes "inv_idle R0 st"
  shows "recorder st =
      R0\<lparr>next_slot := next_slot R0 + sum_list (map (begun (per_thread st)) (threads st))\<rparr>"
    and "k < length (threads st) \<Longrightarrow> unat (idx (threads st ! k)) = k"
    and "k < length (threads st) \<Longrightarrow>
           begun (per_thread st) (threads st ! k) \<le> unat (per_thread st ! k)"
    and "k < length (threads st) \<Longrightarrow> pc (threads st ! k) \<noteq> Crashed"
    and "k < length (threads st) \<Longrightarrow> pc (threads st ! k) = Logging n token \<Longrightarrow>
           \<not> recording token"
    and "k < length (threads st) \<Longrightarrow> pc (threads st ! k) = Logging n token \<Longrightarrow>
           unat n < unat (per_thread st ! k)"
    and "length (threads st) \<le> length (per_thread st)"
    and "token \<in> set (pending (adapter st)) \<Longrightarrow> \<not> recording token"
  using assms unfolding inv_idle_def by blast+

text \<open>A producer moves: its count of \<open>begin\<close> calls and the counter grow by \<open>c\<close>.\<close>

lemma inv_idle_thread:
  assumes inv: "inv_idle R0 st" and k: "k < length (threads st)"
    and th: "threads st' = (threads st)[k := th']"
    and q: "per_thread st' = per_thread st"
    and idx: "idx th' = idx (threads st ! k)"
    and bg: "begun (per_thread st) th' = begun (per_thread st) (threads st ! k) + c"
    and rc: "recorder st' = (recorder st)\<lparr>next_slot := next_slot (recorder st) + c\<rparr>"
    and le: "begun (per_thread st) th' \<le> unat (per_thread st ! k)"
    and nc: "pc th' \<noteq> Crashed"
    and lg: "\<And>n token. pc th' = Logging n token \<Longrightarrow>
               \<not> recording token \<and> unat n < unat (per_thread st ! k)"
    and pend: "\<And>token. token \<in> set (pending (adapter st')) \<Longrightarrow> \<not> recording token"
  shows "inv_idle R0 st'"
proof -
  let ?q = "per_thread st"
  have sum: "sum_list (map (begun ?q) ((threads st)[k := th'])) =
      sum_list (map (begun ?q) (threads st)) + c"
    using begun_update [OF k, of ?q th'] bg by simp
  have r: "recorder st' =
      R0\<lparr>next_slot := next_slot R0 + sum_list (map (begun ?q) ((threads st)[k := th']))\<rparr>"
    unfolding rc sum using inv_idleD(1) [OF inv] by simp
  have each: "unat (idx ((threads st)[k := th'] ! j)) = j \<and>
      begun ?q ((threads st)[k := th'] ! j) \<le> unat (?q ! j) \<and>
      pc ((threads st)[k := th'] ! j) \<noteq> Crashed \<and>
      (\<forall>n token. pc ((threads st)[k := th'] ! j) = Logging n token \<longrightarrow>
         \<not> recording token \<and> unat n < unat (?q ! j))"
    if j: "j < length (threads st)" for j
  proof (cases "j = k")
    case True
    then show ?thesis using k idx le nc lg inv_idleD(2) [OF inv k] by simp
  next
    case False
    then show ?thesis
      using inv_idleD(2,3,4) [OF inv j] inv_idleD(5,6) [OF inv j] by simp
  qed
  show ?thesis
    unfolding inv_idle_def th q
    using r each inv_idleD(7) [OF inv] pend th by simp
qed

lemma inv_idle_main:
  assumes inv: "inv_idle R0 st" and thr: "inv_threads sc st"
    and q: "length (per_thread st) = unat (producers sc)"
  shows "inv_idle R0 (main_step sc md st)"
proof (cases "ctl st")
  case (Spawning i)
  show ?thesis
  proof (cases "i < producers sc")
    case True
    have len: "unat i = length (threads st)" using inv_threadsD(3) [OF thr Spawning] .
    have "length (threads st) < length (per_thread st)"
      using True len q by (simp add: word_less_nat_alt)
    then show ?thesis using inv Spawning True len
      by (auto simp: inv_idle_def main_step_def emit_def nth_append less_Suc_eq begun_def)
  next
    case False
    then show ?thesis using inv Spawning by (simp add: inv_idle_def main_step_def)
  qed
next
  case WaitReady
  then show ?thesis using inv
    by (auto simp: inv_idle_def main_step_def emit_def Let_def)
next
  case (Joining k)
  have "fold (\<lambda>token r. recorder_complete r token t) (pending (adapter st)) (recorder st) =
      recorder st" for t
    using inv_idleD(8) [OF inv] by (intro fold_complete_idle) blast
  then show ?thesis using inv Joining
    by (auto simp: inv_idle_def main_step_def emit_def adapter_flush_def)
next
  case AfterFlush
  then show ?thesis using inv by (auto simp: inv_idle_def main_step_def emit_def)
next
  case (Returned d)
  then show ?thesis using inv by (simp add: main_step_def)
qed

lemma inv_idle_producer:
  assumes inv: "inv_idle R0 st"
  shows "inv_idle R0 (producer_step sc False k st)"
proof (cases "k < length (threads st)")
  case False
  then show ?thesis using inv by (simp add: producer_step_def)
next
  case k: True
  let ?q = "per_thread st" and ?th = "threads st ! k"
  let ?st' = "producer_step sc False k st"
  have ik: "unat (idx ?th) = k" using inv_idleD(2) [OF inv k] .
  note pend = inv_idleD(8) [OF inv]
  show ?thesis
  proof (cases "pc ?th")
    case AtEntry
    show ?thesis
    proof (rule inv_idle_thread [OF inv k, where c = 0 and
          th' = "?th\<lparr>message := make_message (message_bytes sc) (idx ?th),
                    pc := (if start_flag st then Loop 0 else Waiting)\<rparr>"])
      show "threads ?st' = (threads st)[k := ?th\<lparr>message := make_message (message_bytes sc) (idx ?th),
                    pc := (if start_flag st then Loop 0 else Waiting)\<rparr>]"
        using k AtEntry by (simp add: producer_step_def emit_def Let_def)
      show "recorder ?st' = (recorder st)\<lparr>next_slot := next_slot (recorder st) + 0\<rparr>"
        using k AtEntry by (simp add: producer_step_def emit_def Let_def)
      show "\<not> recording token" if "token \<in> set (pending (adapter ?st'))" for token
        using that k AtEntry pend by (auto simp: producer_step_def emit_def Let_def split: if_splits)
    qed (use AtEntry in \<open>simp_all add: producer_step_frame begun_def split: if_splits\<close>)
  next
    case Waiting
    show ?thesis
    proof (cases "Producing k \<in> set (asleep st) \<or> \<not> start_flag st")
      case True
      then show ?thesis using inv k Waiting by (auto simp: producer_step_def Let_def)
    next
      case False
      show ?thesis
      proof (rule inv_idle_thread [OF inv k, where c = 0 and th' = "?th\<lparr>pc := Loop 0\<rparr>"])
        show "threads ?st' = (threads st)[k := ?th\<lparr>pc := Loop 0\<rparr>]"
          using k Waiting False by (simp add: producer_step_def set_pc_def Let_def)
        show "recorder ?st' = (recorder st)\<lparr>next_slot := next_slot (recorder st) + 0\<rparr>"
          using k Waiting False by (simp add: producer_step_def set_pc_def Let_def)
        show "\<not> recording token" if "token \<in> set (pending (adapter ?st'))" for token
          using that k Waiting False pend by (auto simp: producer_step_def set_pc_def Let_def split: if_splits)
      qed (use Waiting in \<open>simp_all add: producer_step_frame begun_def\<close>)
    qed
  next
    case (Loop n)
    have le: "unat n \<le> unat (?q ! k)" using inv_idleD(3) [OF inv k] Loop by (simp add: begun_def)
    show ?thesis
    proof (cases "n < ?q ! unat (idx ?th)")
      case True
      then have lt: "unat n < unat (?q ! k)" using ik by (simp add: word_less_nat_alt)
      let ?token = "\<lparr>slot = next_slot (recorder st), recording = False\<rparr>"
      show ?thesis
      proof (rule inv_idle_thread [OF inv k, where c = 1 and th' = "?th\<lparr>pc := Logging n ?token\<rparr>"])
        show "threads ?st' = (threads st)[k := ?th\<lparr>pc := Logging n ?token\<rparr>]"
          using k Loop True
          by (simp add: producer_step_def set_pc_def emit_def Let_def recorder_begin_def)
        show "recorder ?st' = (recorder st)\<lparr>next_slot := next_slot (recorder st) + 1\<rparr>"
          using k Loop True
          by (simp add: producer_step_def set_pc_def emit_def Let_def recorder_begin_def)
        show "\<not> recording token" if "token \<in> set (pending (adapter ?st'))" for token
          using that k Loop True pend
          by (auto simp: producer_step_def set_pc_def emit_def Let_def recorder_begin_def split: if_splits)
      qed (use Loop lt in \<open>simp_all add: producer_step_frame begun_def\<close>)
    next
      case False
      then have "unat (?q ! k) \<le> unat n" using ik by (simp add: word_less_nat_alt)
      with le have eq: "unat n = unat (?q ! k)" by simp
      show ?thesis
      proof (rule inv_idle_thread [OF inv k, where c = 0 and th' = "?th\<lparr>pc := Finished\<rparr>"])
        show "threads ?st' = (threads st)[k := ?th\<lparr>pc := Finished\<rparr>]"
          using k Loop False by (simp add: producer_step_def set_pc_def Let_def)
        show "recorder ?st' = (recorder st)\<lparr>next_slot := next_slot (recorder st) + 0\<rparr>"
          using k Loop False by (simp add: producer_step_def set_pc_def Let_def)
        show "\<not> recording token" if "token \<in> set (pending (adapter ?st'))" for token
          using that k Loop False pend by (auto simp: producer_step_def set_pc_def Let_def split: if_splits)
      qed (use Loop eq ik in \<open>simp_all add: producer_step_frame begun_def\<close>)
    qed
  next
    case (Logging n token)
    have nr: "\<not> recording token" using inv_idleD(5) [OF inv k Logging] .
    have lt: "unat n < unat (?q ! k)" using inv_idleD(6) [OF inv k Logging] .
    then have suc: "unat (n + 1) = Suc (unat n)" by (rule unat_succ_below_nat)
    show ?thesis
    proof (rule inv_idle_thread [OF inv k, where c = 0 and th' = "?th\<lparr>pc := Loop (n + 1)\<rparr>"])
      show "threads ?st' = (threads st)[k := ?th\<lparr>pc := Loop (n + 1)\<rparr>]"
        using k Logging
        by (simp add: producer_step_def set_pc_def emit_def adapter_log_def Let_def)
      show "recorder ?st' = (recorder st)\<lparr>next_slot := next_slot (recorder st) + 0\<rparr>"
        using k Logging nr
        by (simp add: producer_step_def set_pc_def emit_def adapter_log_def Let_def complete_idle)
      show "\<not> recording t'" if "t' \<in> set (pending (adapter ?st'))" for t'
        using that k Logging nr pend
        by (auto simp: producer_step_def set_pc_def emit_def adapter_log_def Let_def
                 split: if_splits)
    qed (use Logging lt suc in \<open>simp_all add: producer_step_frame begun_def\<close>)
  next
    case Finished
    then show ?thesis using inv k by (simp add: producer_step_def Let_def)
  next
    case Crashed
    then show ?thesis using inv k by (simp add: producer_step_def Let_def)
  qed
qed

lemma inv_idle_sink: "inv_idle R0 st \<Longrightarrow> inv_idle R0 (adapter_sink st)"
  by (cases "pending (adapter st)") (auto simp: inv_idle_def adapter_sink_def complete_idle)

lemma inv_idle_now: "inv_idle R0 (st\<lparr>now := t\<rparr>) = inv_idle R0 st"
  by (simp add: inv_idle_def)

lemma inv_idle_step:
  assumes "inv_idle R0 st" "inv_threads sc st" "length (per_thread st) = unat (producers sc)"
  shows "inv_idle R0 (step sc False md st a)"
proof (cases "fst a")
  case Main
  have "inv_idle R0 (main_step sc md (st\<lparr>now := now st + int (snd a)\<rparr>))"
    using assms by (intro inv_idle_main) (simp_all add: inv_idle_now inv_threads_world_update)
  with Main show ?thesis by (simp add: step_def Let_def)
next
  case (Producer k)
  have "inv_idle R0 (producer_step sc False k (st\<lparr>now := now st + int (snd a)\<rparr>))"
    using assms(1) by (intro inv_idle_producer) (simp add: inv_idle_now)
  with Producer show ?thesis by (simp add: step_def Let_def)
next
  case Sink
  with assms(1) show ?thesis by (simp add: step_def Let_def inv_idle_sink inv_idle_now)
next
  case (Deliver b)
  with assms(1) show ?thesis by (simp add: step_def Let_def inv_idle_now)
next
  case (Spurious b)
  with assms(1) show ?thesis by (simp add: step_def Let_def inv_idle_now)
qed

lemma inv_drained_step:
  assumes d: "inv_drained st" and j: "inv_join sc md m st"
  shows "inv_drained (step sc r md st a)"
proof (cases "ctl st = AfterFlush \<or> (\<exists>d. ctl st = Returned d)")
  case late: True
  then have empty: "pending (adapter st) = []" using d by (simp add: inv_drained_def)
  have fin: "\<forall>j<length (threads st). pc (threads st ! j) = Finished"
    using j late unfolding inv_join_def by blast
  show ?thesis
  proof (cases "fst a")
    case Main
    then show ?thesis using late empty
      by (auto simp: step_def Let_def inv_drained_def main_step_def emit_def)
  next
    case (Producer k)
    have "producer_step sc r k (st\<lparr>now := now st + int (snd a)\<rparr>) = st\<lparr>now := now st + int (snd a)\<rparr>"
      using fin by (intro producer_step_idle) simp
    then show ?thesis using Producer late empty
      by (simp add: step_def Let_def inv_drained_def)
  next
    case Sink
    then show ?thesis using late empty
      by (simp add: step_def Let_def inv_drained_def adapter_sink_def)
  next
    case (Deliver b)
    then show ?thesis using late empty by (simp add: step_def Let_def inv_drained_def)
  next
    case (Spurious b)
    then show ?thesis using late empty by (simp add: step_def Let_def inv_drained_def)
  qed
next
  case early: False
  show ?thesis
  proof (cases "fst a")
    case Main
    then show ?thesis using early
      by (auto simp: step_def Let_def inv_drained_def main_step_def emit_def adapter_flush_def
               split: main_pc.splits)
  next
    case (Producer k)
    then show ?thesis using early
      by (simp add: step_def Let_def inv_drained_def producer_step_frame)
  next
    case Sink
    then show ?thesis using early
      by (simp add: step_def Let_def inv_drained_def adapter_sink_def split: list.splits)
  next
    case (Deliver b)
    then show ?thesis using early by (simp add: step_def Let_def inv_drained_def)
  next
    case (Spurious b)
    then show ?thesis using early by (simp add: step_def Let_def inv_drained_def)
  qed
qed

lemma filter_all_nth: "\<forall>j<length xs. P (xs ! j) \<Longrightarrow> filter P xs = xs"
  by (simp add: filter_id_conv all_set_conv_all_nth)


lemma idx_position:
  assumes "inv_threads sc st" "k < length (threads st)"
  shows "unat (idx (threads st ! k)) = k"
proof -
  have "k < unat (producers sc)" using inv_threadsD(1) [OF assms(1)] assms(2) by simp
  moreover have "unat (producers sc) < 2 ^ 64"
    using unsigned_less [of "producers sc", where ?'a = nat] by simp
  ultimately have "k mod 2 ^ 64 = k" by simp
  then show ?thesis using inv_threadsD(2) [OF assms] by (simp add: unat_of_nat)
qed

lemma finished_begun:
  assumes thr: "inv_threads sc st"
    and fin: "\<forall>k<length (threads st). pc (threads st ! k) = Finished"
    and len: "length (threads st) = length (per_thread st)"
  shows "sum_list (map (begun (per_thread st)) (threads st)) = sum_list (map unat (per_thread st))"
proof -
  have "map (begun (per_thread st)) (threads st) = map unat (per_thread st)"
  proof (rule nth_equalityI)
    show "length (map (begun (per_thread st)) (threads st)) = length (map unat (per_thread st))"
      using len by simp
  next
    fix k assume "k < length (map (begun (per_thread st)) (threads st))"
    then have k: "k < length (threads st)" by simp
    have "begun (per_thread st) (threads st ! k) = unat (per_thread st ! k)"
      using fin k idx_position [OF thr k] by (simp add: begun_def)
    then show "map (begun (per_thread st)) (threads st) ! k = map unat (per_thread st) ! k"
      using k len by simp
  qed
  then show ?thesis by simp
qed

text \<open>
  A pass without recording that returns has advanced the counter of the recorder by the
  number of its messages, one \<open>begin\<close> each, and has changed nothing else.
\<close>

lemma warmup_claims_slots:
  assumes "run_workload w sc n False md sched = (Some d, w')"
    and "pending (adapter w) = []"
  shows "recorder w' =
      (recorder w)\<lparr>next_slot :=
         next_slot (recorder w) + (if producers sc = 0 then 0 else unat n)\<rparr> \<and>
    pending (adapter w') = []"
proof (cases "producers sc = 0")
  case True
  with assms show ?thesis by (auto simp: run_workload_def emit_def adapter_flush_def)
next
  case False
  let ?st = "exec w sc n False md sched"
  let ?q = "distribute n (producers sc)"
  have ret: "ctl ?st = Returned d" and w': "w' = world.truncate ?st"
    using assms(1) by (auto simp: run_workload_threads [OF False] split: main_pc.splits)
  have inv: "inv_idle (recorder w) ?st \<and> inv_drained ?st \<and> per_thread ?st = ?q \<and>
      inv_all sc md (Suc (length (trace w))) ?st"
    unfolding exec_def
  proof (rule foldl_invariant)
    let ?s0 = "start_state (emit (EvRun n False md) w) ?q"
    have "inv_all sc md (Suc (length (trace w))) ?s0"
      using inv_all_exec [of sc md w n False "[]"] by (simp add: exec_def)
    moreover have "inv_idle (recorder w) ?s0" "inv_drained ?s0" "per_thread ?s0 = ?q"
      using assms(2)
      by (simp_all add: inv_idle_def inv_drained_def start_state_def emit_def world.defs
                        run_state.defs)
    ultimately show "inv_idle (recorder w) ?s0 \<and> inv_drained ?s0 \<and> per_thread ?s0 = ?q \<and>
        inv_all sc md (Suc (length (trace w))) ?s0"
      by simp
  next
    fix st :: run_state and a
    assume h: "inv_idle (recorder w) st \<and> inv_drained st \<and> per_thread st = ?q \<and>
        inv_all sc md (Suc (length (trace w))) st"
    then have i: "inv_idle (recorder w) st" and dr: "inv_drained st"
      and q: "per_thread st = ?q"
      and al: "inv_all sc md (Suc (length (trace w))) st"
      by simp_all
    from al have j: "inv_join sc md (Suc (length (trace w))) st"
      and thr: "inv_threads sc st" by (simp_all add: inv_all_def)
    have len: "length (per_thread st) = unat (producers sc)" using q by (simp add: distribute_length)
    show "inv_idle (recorder w) (step sc False md st a) \<and>
        inv_drained (step sc False md st a) \<and>
        per_thread (step sc False md st a) = ?q \<and>
        inv_all sc md (Suc (length (trace w))) (step sc False md st a)"
      using inv_idle_step [OF i thr len] inv_drained_step [OF dr j] inv_all_step [OF al] q
      by (simp add: per_thread_step)
  qed
  then have i: "inv_idle (recorder w) ?st" and q: "per_thread ?st = ?q"
    and thr: "inv_threads sc ?st" and j: "inv_join sc md (Suc (length (trace w))) ?st"
    by (simp_all add: inv_all_def)
  have fin: "\<forall>k<length (threads ?st). pc (threads ?st ! k) = Finished"
    using j ret unfolding inv_join_def by blast
  have len: "length (threads ?st) = length (per_thread ?st)"
    using inv_threadsD(4) [OF thr] ret q by (simp add: distribute_length)
  have "sum_list (map (begun (per_thread ?st)) (threads ?st)) = unat n"
    using finished_begun [OF thr fin len] q distribute_sum [OF False, of n] by simp
  then have "recorder ?st = (recorder w)\<lparr>next_slot := next_slot (recorder w) + unat n\<rparr>"
    using inv_idleD(1) [OF i] by simp
  moreover have "pending (adapter ?st) = []" using inv ret by (simp add: inv_drained_def)
  ultimately show ?thesis using w' False by (simp add: world.defs)
qed

lemma warmup_leaves_recorder:
  assumes "run_workload w sc 0 False md sched = (Some d, w')"
    and "pending (adapter w) = []"
  shows "recorder w' = recorder w \<and> pending (adapter w') = []"
  using warmup_claims_slots [OF assms] by simp


subsection \<open>The slots a recording pass needs\<close>

lemma inv_claimed_cv [simp]:
  "inv_claimed c (cv_block a st) = inv_claimed c st"
  "inv_claimed c (cv_notify_one st) = inv_claimed c st"
  "inv_claimed c (cv_notify_all st) = inv_claimed c st"
  "inv_claimed c (cv_wake a st) = inv_claimed c st"
  "inv_claimed c (cv_deliver a st) = inv_claimed c st"
  by (simp_all add: inv_claimed_def)

lemma complete_next_slot [simp]: "next_slot (recorder_complete R token t) = next_slot R"
  by (simp add: recorder_complete_def)

lemma fold_complete_next_slot [simp]:
  "next_slot (fold (\<lambda>token r. recorder_complete r token t) toks R) = next_slot R"
  by (induction toks arbitrary: R) simp_all









subsection \<open>A concrete scenario, end to end\<close>


















subsection \<open>A run that completes\<close>

lemma inv_live_start: "inv_live (start_state w shares)"
  by (simp add: inv_live_def start_state_def world.defs run_state.defs)

lemma inv_live_main: "inv_live st \<Longrightarrow> inv_live (main_step sc md st)"
  by (cases "ctl st")
     (auto simp: inv_live_def main_step_def emit_def adapter_flush_def Let_def nth_append
                 less_Suc_eq)

lemma inv_live_producer:
  assumes "inv_live st"
  shows "inv_live (producer_step sc False k st)"
proof (cases "k < length (threads st)")
  case False
  then show ?thesis using assms by (simp add: producer_step_def)
next
  case k: True
  show ?thesis
  proof (cases "pc (threads st ! k)")
    case AtEntry
    then show ?thesis using assms k
      by (auto simp: inv_live_def producer_step_def emit_def Let_def nth_list_update)
  next
    case Waiting
    then show ?thesis using assms k
      by (auto simp: inv_live_def producer_step_def set_pc_def Let_def nth_list_update)
  next
    case (Loop n)
    then show ?thesis using assms k
      by (auto simp: inv_live_def producer_step_def set_pc_def emit_def Let_def nth_list_update
                     recorder_begin_def)
  next
    case (Logging n token)
    then show ?thesis using assms k
      by (auto simp: inv_live_def producer_step_def set_pc_def emit_def adapter_log_def Let_def
                     nth_list_update)
  next
    case Finished
    then show ?thesis using assms k by (simp add: producer_step_def Let_def)
  next
    case Crashed
    then show ?thesis using assms k by (simp add: producer_step_def Let_def)
  qed
qed

lemma inv_live_step: "inv_live st \<Longrightarrow> inv_live (step sc False md st a)"
proof (cases "fst a")
  case Main
  assume "inv_live st"
  then have "inv_live (st\<lparr>now := now st + int (snd a)\<rparr>)" by (simp add: inv_live_def)
  from inv_live_main [OF this] Main show ?thesis by (simp add: step_def Let_def)
next
  case (Producer k)
  assume "inv_live st"
  then have "inv_live (st\<lparr>now := now st + int (snd a)\<rparr>)" by (simp add: inv_live_def)
  from inv_live_producer [OF this] Producer show ?thesis by (simp add: step_def Let_def)
next
  case Sink
  assume "inv_live st"
  then show ?thesis using Sink
    by (simp add: step_def Let_def inv_live_def adapter_sink_def split: list.splits)
next
  case (Deliver b)
  assume "inv_live st"
  then show ?thesis using Deliver by (simp add: step_def Let_def inv_live_def)
next
  case (Spurious b)
  assume "inv_live st"
  then show ?thesis using Spurious by (simp add: step_def Let_def inv_live_def)
qed

lemma inv_awake_start: "inv_awake (start_state w shares)"
  by (simp add: inv_awake_def start_state_def world.defs run_state.defs)

lemma inv_awake_main:
  "inv_awake st \<Longrightarrow> (ctl st = WaitReady \<longrightarrow> ready st = producers sc) \<Longrightarrow>
   inv_awake (main_step sc md st)"
  by (cases "ctl st")
     (auto simp: inv_awake_def main_step_def emit_def adapter_flush_def Let_def cv_defs)

lemma inv_awake_producer: "inv_awake st \<Longrightarrow> inv_awake (producer_step sc r k st)"
  by (auto simp: inv_awake_def producer_step_def emit_def set_pc_def adapter_log_def Let_def
                 cv_defs
           split: producer_pc.splits option.splits)

lemma sum_list_map_update:
  "k < length xs \<Longrightarrow>
   sum_list (map f (xs[k := y])) + f (xs ! k) = sum_list (map f xs) + (f y :: nat)"
proof -
  assume k: "k < length xs"
  have "f (xs ! k) \<in> set (map f xs)" using k by (metis length_map nth_map nth_mem)
  then have "f (xs ! k) \<le> sum_list (map f xs)" by (intro member_le_sum_list) simp_all
  then show ?thesis using k by (simp add: map_update sum_list_update)
qed

lemma work_left_update:
  assumes "k < length (threads st)" "threads st' = (threads st)[k := th']"
    and "per_thread st' = per_thread st"
    and "thread_rank (per_thread st) th' < thread_rank (per_thread st) (threads st ! k)"
  shows "work_left st' < work_left st"
  using sum_list_map_update [OF assms(1), of "thread_rank (per_thread st)" th'] assms(2-4)
  by (simp add: work_left_def)

lemma producer_progress:
  assumes k: "k < length (threads st)"
    and busy: "pc (threads st ! k) \<noteq> Finished"
    and go: "pc (threads st ! k) = Waiting \<longrightarrow> start_flag st \<and> Producing k \<notin> set (asleep st)"
    and live: "inv_live st"
    and room: "\<And>n. pc (threads st ! k) = Loop n \<Longrightarrow>
        n < per_thread st ! unat (idx (threads st ! k)) \<Longrightarrow>
        recorder_begin (recorder st) r (now st) \<noteq> None"
  shows "work_left (producer_step sc r k st) < work_left st"
proof -
  let ?th = "threads st ! k"
  let ?q = "per_thread st"
  show ?thesis
  proof (cases "pc ?th")
    case AtEntry
    let ?th' = "?th\<lparr>message := make_message (message_bytes sc) (idx ?th),
                    pc := (if start_flag st then Loop 0 else Waiting)\<rparr>"
    show ?thesis
    proof (rule work_left_update [OF k, where th' = ?th'])
      show "threads (producer_step sc r k st) = (threads st)[k := ?th']"
        using k AtEntry by (simp add: producer_step_def emit_def Let_def)
      show "per_thread (producer_step sc r k st) = per_thread st"
        by (rule producer_step_frame)
      show "thread_rank ?q ?th' < thread_rank ?q ?th"
        using AtEntry by (simp add: thread_rank_def Let_def)
    qed
  next
    case Waiting
    then have sf: "start_flag st" "Producing k \<notin> set (asleep st)" using go by simp_all
    show ?thesis
    proof (rule work_left_update [OF k, where th' = "?th\<lparr>pc := Loop 0\<rparr>"])
      show "threads (producer_step sc r k st) = (threads st)[k := ?th\<lparr>pc := Loop 0\<rparr>]"
        using k Waiting sf by (simp add: producer_step_def set_pc_def Let_def)
      show "per_thread (producer_step sc r k st) = per_thread st"
        by (rule producer_step_frame)
      show "thread_rank ?q (?th\<lparr>pc := Loop 0\<rparr>) < thread_rank ?q ?th"
        using Waiting by (simp add: thread_rank_def Let_def)
    qed
  next
    case (Loop n)
    show ?thesis
    proof (cases "n < ?q ! unat (idx ?th)")
      case True
      from room [OF Loop True] obtain token R' where
        b: "recorder_begin (recorder st) r (now st) = Some (token, R')"
        by auto
      have lt: "unat n < unat (?q ! unat (idx ?th))" using True by (simp add: word_less_nat_alt)
      show ?thesis
      proof (rule work_left_update [OF k, where th' = "?th\<lparr>pc := Logging n token\<rparr>"])
        show "threads (producer_step sc r k st) =
            (threads st)[k := ?th\<lparr>pc := Logging n token\<rparr>]"
          using k Loop True b
          by (simp add: producer_step_def set_pc_def emit_def Let_def)
        show "per_thread (producer_step sc r k st) = per_thread st"
          by (rule producer_step_frame)
        show "thread_rank ?q (?th\<lparr>pc := Logging n token\<rparr>) < thread_rank ?q ?th"
          using Loop lt by (simp add: thread_rank_def Let_def)
      qed
    next
      case False
      show ?thesis
      proof (rule work_left_update [OF k, where th' = "?th\<lparr>pc := Finished\<rparr>"])
        show "threads (producer_step sc r k st) = (threads st)[k := ?th\<lparr>pc := Finished\<rparr>]"
          using k Loop False by (simp add: producer_step_def set_pc_def Let_def)
        show "per_thread (producer_step sc r k st) = per_thread st"
          by (rule producer_step_frame)
        show "thread_rank ?q (?th\<lparr>pc := Finished\<rparr>) < thread_rank ?q ?th"
          using Loop by (simp add: thread_rank_def Let_def)
      qed
    qed
  next
    case (Logging n token)
    have "n < ?q ! unat (idx ?th)" using live k Logging unfolding inv_live_def by blast
    then have lt: "unat n < unat (?q ! unat (idx ?th))" by (simp add: word_less_nat_alt)
    then have suc: "unat (n + 1) = Suc (unat n)" by (rule unat_succ_below_nat)
    show ?thesis
    proof (rule work_left_update [OF k, where th' = "?th\<lparr>pc := Loop (n + 1)\<rparr>"])
      show "threads (producer_step sc r k st) = (threads st)[k := ?th\<lparr>pc := Loop (n + 1)\<rparr>]"
        using k Logging
        by (simp add: producer_step_def set_pc_def emit_def adapter_log_def Let_def)
      show "per_thread (producer_step sc r k st) = per_thread st"
        by (rule producer_step_frame)
      show "thread_rank ?q (?th\<lparr>pc := Loop (n + 1)\<rparr>) < thread_rank ?q ?th"
        using Logging lt suc by (simp add: thread_rank_def Let_def)
    qed
  next
    case Finished
    with busy show ?thesis by simp
  next
    case Crashed
    with live k show ?thesis by (simp add: inv_live_def)
  qed
qed

lemma filter_short: "length (filter P xs) < length xs \<Longrightarrow> \<exists>k<length xs. \<not> P (xs ! k)"
proof (rule ccontr)
  assume short: "length (filter P xs) < length xs" and "\<not> (\<exists>k<length xs. \<not> P (xs ! k))"
  then have "\<forall>k<length xs. P (xs ! k)" by blast
  then have "filter P xs = xs" by (rule filter_all_nth)
  with short show False by simp
qed

lemma rank_now: "rank sc (st\<lparr>now := t\<rparr>) = rank sc st"
  by (simp add: rank_def main_rank_def work_left_def)

lemma progress:
  assumes thr: "inv_threads sc st" and j: "inv_join sc md m st" and live: "inv_live st"
    and awake: "inv_awake st"
    and running: "\<And>d. ctl st \<noteq> Returned d"
    and room: "\<And>k n. k < length (threads st) \<Longrightarrow> pc (threads st ! k) = Loop n \<Longrightarrow>
        n < per_thread st ! unat (idx (threads st ! k)) \<Longrightarrow>
        recorder_begin (recorder st) r (now st) \<noteq> None"
  shows "\<exists>a. \<not> is_spurious (fst a) \<and> inv_awake (step sc r md st a) \<and>
           (rank sc (step sc r md st a), rank sc st) \<in> rank_order"
proof -
  let ?P = "unat (producers sc)"
  let ?goal = "\<exists>a. \<not> is_spurious (fst a) \<and> inv_awake (step sc r md st a) \<and>
      (rank sc (step sc r md st a), rank sc st) \<in> rank_order"
  have main: ?goal
    if "main_rank sc (main_step sc md st) < main_rank sc st"
      and "ctl st = WaitReady \<longrightarrow> ready st = producers sc"
  proof -
    have "step sc r md st (Main, 0) = main_step sc md (st\<lparr>now := now st\<rparr>)"
      by (simp add: step_def Let_def)
    also have "st\<lparr>now := now st\<rparr> = st" by simp
    finally have eq: "step sc r md st (Main, 0) = main_step sc md st" .
    have "(rank sc (step sc r md st (Main, 0)), rank sc st) \<in> rank_order"
      unfolding eq using that(1) by (simp add: rank_def rank_order_def)
    moreover have "inv_awake (step sc r md st (Main, 0))"
      unfolding eq using awake that(2) by (rule inv_awake_main)
    moreover have "\<not> is_spurious (fst (Main, 0 :: nat))" by (simp add: is_spurious_def)
    ultimately show ?thesis by blast
  qed
  have worker: ?goal
    if "k < length (threads st)" "pc (threads st ! k) \<noteq> Finished"
      "pc (threads st ! k) = Waiting \<longrightarrow> start_flag st" for k
  proof -
    have "step sc r md st (Producer k, 0) = producer_step sc r k (st\<lparr>now := now st\<rparr>)"
      by (simp add: step_def Let_def)
    also have "st\<lparr>now := now st\<rparr> = st" by simp
    finally have eq: "step sc r md st (Producer k, 0) = producer_step sc r k st" .
    have go: "pc (threads st ! k) = Waiting \<longrightarrow>
        start_flag st \<and> Producing k \<notin> set (asleep st)"
      using that(3) awake by (auto simp: inv_awake_def)
    have "work_left (producer_step sc r k st) < work_left st"
      using that(1,2) go live room [of k] by (intro producer_progress) simp_all
    moreover have "main_rank sc (producer_step sc r k st) = main_rank sc st"
      by (simp add: main_rank_def producer_step_frame)
    ultimately have "(rank sc (step sc r md st (Producer k, 0)), rank sc st) \<in> rank_order"
      unfolding eq by (simp add: rank_def rank_order_def)
    moreover have "inv_awake (step sc r md st (Producer k, 0))"
      unfolding eq using awake by (rule inv_awake_producer)
    moreover have "\<not> is_spurious (fst (Producer k, 0 :: nat))" by (simp add: is_spurious_def)
    ultimately show ?thesis by blast
  qed
  show ?thesis
  proof (cases "ctl st")
    case (Spawning i)
    have le: "unat i \<le> ?P" using inv_threadsD(1,3) [OF thr] Spawning by simp
    show ?thesis
    proof (cases "i < producers sc")
      case True
      have "unat (i + 1) = Suc (unat i)" using True by (rule unat_succ_below)
      then show ?thesis using Spawning True le
        by (intro main) (simp_all add: main_rank_def main_step_def emit_def)
    next
      case False
      then show ?thesis using Spawning le
        by (intro main) (simp_all add: main_rank_def main_step_def)
    qed
  next
    case WaitReady
    show ?thesis
    proof (cases "ready st = producers sc")
      case True
      have "Controlling \<notin> set (asleep st)" using awake by (simp add: inv_awake_def)
      then show ?thesis using WaitReady True
        by (intro main) (simp_all add: main_rank_def main_step_def emit_def Let_def)
    next
      case False
      have len: "length (threads st) = ?P" using inv_threadsD(4) [OF thr] WaitReady by simp
      have "unat (ready st) \<noteq> ?P" using False by (simp add: word_unat_eq_iff)
      moreover have "unat (ready st) \<le> length (threads st)"
        using inv_threadsD(5) [OF thr] by simp
      ultimately have "length (filter (\<lambda>th. pc th \<noteq> AtEntry) (threads st)) < length (threads st)"
        using inv_threadsD(5) [OF thr] len by simp
      from filter_short [OF this] obtain k where
        "k < length (threads st)" "pc (threads st ! k) = AtEntry" by auto
      then show ?thesis by (intro worker [of k]) simp_all
    qed
  next
    case (Joining k)
    have kl: "k \<le> length (threads st)" using j Joining unfolding inv_join_def by blast
    have lp: "length (threads st) \<le> ?P" using inv_threadsD(1) [OF thr] .
    have sf: "start_flag st" using inv_threadsD(6) [OF thr] Joining by simp
    show ?thesis
    proof (cases "k < length (threads st)")
      case True
      show ?thesis
      proof (cases "pc (threads st ! k) = Finished")
        case f: True
        then show ?thesis using Joining True lp
          by (intro main) (simp_all add: main_rank_def main_step_def emit_def)
      next
        case False
        then show ?thesis using True sf by (intro worker [of k]) simp_all
      qed
    next
      case False
      then show ?thesis using Joining kl lp
        by (intro main) (simp_all add: main_rank_def main_step_def emit_def adapter_flush_def)
    qed
  next
    case AfterFlush
    then show ?thesis
      by (intro main) (simp_all add: main_rank_def main_step_def emit_def)
  next
    case (Returned d)
    with running [of d] show ?thesis by blast
  qed
qed

lemma wf_rank_order: "wf (inv_image rank_order (rank sc))"
  unfolding rank_order_def by (intro wf_inv_image wf_lex_prod wf_less_than)

lemma inv_rec_live: "inv_rec st \<Longrightarrow> inv_live st"
proof -
  assume ok: "inv_rec st"
  note rk = ok [unfolded inv_rec_def]
  show ?thesis
    unfolding inv_live_def
  proof (intro allI impI conjI)
    fix k assume k: "k < length (threads st)"
    show "pc (threads st ! k) \<noteq> Crashed" using rec_okD(4) [OF rk k] .
    fix n token assume "pc (threads st ! k) = Logging n token"
    from rec_okD(5) [OF rk k this] rec_okD(2) [OF rk k]
    show "n < per_thread st ! unat (idx (threads st ! k))" by (simp add: word_less_nat_alt)
  qed
qed

lemma inv_run_step:
  assumes "inv_run sc r md m st"
  shows "inv_run sc r md m (step sc r md st a)"
proof (cases r)
  case True
  with assms have al: "inv_all sc md m st" and ok: "inv_rec st"
    and len: "length (per_thread st) = unat (producers sc)"
    by (simp_all add: inv_run_def)
  from al have thr: "inv_threads sc st" by (simp add: inv_all_def)
  show ?thesis
    using True inv_all_step [OF al, of True a] inv_rec_step [OF ok thr len, of md a] len
    by (simp add: inv_run_def per_thread_step)
next
  case False
  with assms have al: "inv_all sc md m st" and live: "inv_live st"
    by (simp_all add: inv_run_def)
  show ?thesis
    using False inv_all_step [OF al, of False a] inv_live_step [OF live, of sc md a]
    by (simp add: inv_run_def)
qed

lemma inv_run_room:
  assumes inv: "inv_run sc r md m st" and k: "k < length (threads st)"
    and pc: "pc (threads st ! k) = Loop n"
    and more: "n < per_thread st ! unat (idx (threads st ! k))"
  shows "recorder_begin (recorder st) r (now st) \<noteq> None"
proof (cases r)
  case True
  with inv have "rec_ok (per_thread st) (threads st) (pending (adapter st)) (recorder st)"
    by (simp add: inv_run_def inv_rec_def)
  from rec_ok_begin [OF this k pc more, of "now st"] True show ?thesis by auto
next
  case False
  then show ?thesis by (simp add: recorder_begin_def)
qed

lemma completion:
  assumes "inv_run sc r md m st" "inv_awake st"
  shows "\<exists>sched d. no_spurious sched \<and> ctl (foldl (step sc r md) st sched) = Returned d"
proof -
  have "inv_run sc r md m st \<and> inv_awake st \<longrightarrow>
      (\<exists>sched d. no_spurious sched \<and> ctl (foldl (step sc r md) st sched) = Returned d)"
  proof (rule wf_induct [OF wf_rank_order [of sc]], intro allI impI)
    fix x
    assume IH: "\<forall>y. (y, x) \<in> inv_image rank_order (rank sc) \<longrightarrow>
        inv_run sc r md m y \<and> inv_awake y \<longrightarrow>
        (\<exists>sched d. no_spurious sched \<and> ctl (foldl (step sc r md) y sched) = Returned d)"
      and h: "inv_run sc r md m x \<and> inv_awake x"
    then have inv: "inv_run sc r md m x" and awake: "inv_awake x" by simp_all
    show "\<exists>sched d. no_spurious sched \<and> ctl (foldl (step sc r md) x sched) = Returned d"
    proof (cases "\<exists>d. ctl x = Returned d")
      case True
      then obtain d where "ctl (foldl (step sc r md) x []) = Returned d" by auto
      moreover have "no_spurious []" by (simp add: no_spurious_def)
      ultimately show ?thesis by blast
    next
      case False
      have thr: "inv_threads sc x" and j: "inv_join sc md m x"
        using inv by (simp_all add: inv_run_def inv_all_def)
      have live: "inv_live x"
        using inv inv_rec_live [of x] by (cases r) (simp_all add: inv_run_def)
      from progress [OF thr j live awake, of r] False inv_run_room [OF inv] obtain a where
        a: "\<not> is_spurious (fst a)" "inv_awake (step sc r md x a)"
          "(rank sc (step sc r md x a), rank sc x) \<in> rank_order"
        by blast
      have "inv_run sc r md m (step sc r md x a)" using inv by (rule inv_run_step)
      moreover have "(step sc r md x a, x) \<in> inv_image rank_order (rank sc)"
        using a(3) by (simp add: inv_image_def)
      ultimately obtain sched d where
        "no_spurious sched" "ctl (foldl (step sc r md) (step sc r md x a) sched) = Returned d"
        using IH a(2) by blast
      then have "no_spurious (a # sched)" "ctl (foldl (step sc r md) x (a # sched)) = Returned d"
        using a(1) by (simp_all add: no_spurious_def)
      then show ?thesis by blast
    qed
  qed
  with assms show ?thesis by simp
qed

text \<open>
  A run can complete: there is a schedule, with no spurious wake-up, under which
  \<open>run_workload\<close> returns, for a pass without recording and for a recording pass on a
  fresh recorder with a slot per message. Under it the controlling thread reaches its
  wait only after the last producer has arrived.
\<close>

lemma run_workload_can_return:
  assumes "r \<longrightarrow> recorder w = new_recorder n \<and> pending (adapter w) = []"
  shows "\<exists>sched d. no_spurious sched \<and> fst (run_workload w sc n r md sched) = Some d"
proof (cases "producers sc = 0")
  case True
  have "no_spurious []" by (simp add: no_spurious_def)
  moreover have "fst (run_workload w sc n r md []) = Some 0"
    using True by (simp add: run_workload_def)
  ultimately show ?thesis by blast
next
  case False
  let ?s0 = "start_state (emit (EvRun n r md) w) (distribute n (producers sc))"
  have al0: "inv_all sc md (Suc (length (trace w))) ?s0"
    using inv_all_exec [of sc md w n r "[]"] by (simp add: exec_def)
  have "inv_run sc r md (Suc (length (trace w))) ?s0"
  proof (cases r)
    case r: False
    then show ?thesis using al0 inv_live_start by (simp add: inv_run_def)
  next
    case r: True
    with assms have fresh: "recorder w = new_recorder n" and empty: "pending (adapter w) = []"
      by simp_all
    have "inv_rec ?s0"
      unfolding inv_rec_def
    proof (rule rec_okI)
      show "sum_list (map unat (per_thread ?s0)) \<le> length (slots (recorder ?s0))"
        using fresh distribute_sum [OF False, of n]
        by (simp add: start_state_def emit_def world.defs run_state.defs new_recorder_def)
    qed (use empty fresh in \<open>simp_all add: start_state_def emit_def world.defs run_state.defs
           new_recorder_def outstanding_def holding_def\<close>)
    moreover have "length (per_thread ?s0) = unat (producers sc)"
      by (simp add: start_state_def world.defs run_state.defs distribute_length)
    ultimately show ?thesis using r al0 by (simp add: inv_run_def)
  qed
  from completion [OF this inv_awake_start] obtain sched d where
    "no_spurious sched" "ctl (foldl (step sc r md) ?s0 sched) = Returned d"
    by blast
  then have "no_spurious sched" "fst (run_workload w sc n r md sched) = Some d"
    using False by (simp_all add: run_workload_threads exec_def)
  then show ?thesis by blast
qed

text \<open>
  \<open>execute_scenario\<close> can complete for every scenario when the warm-up issues no message.
\<close>

lemma execute_scenario_can_return:
  "\<exists>s1 s2 res w'. no_spurious s1 \<and> no_spurious s2 \<and>
     execute_scenario fp w sc 0 s1 s2 = Some (res, w')"
proof -
  define w2 where "w2 = emit EvPrepare (adapter_prepare sc
      (emit (EvConstruct (total_messages sc)) (w\<lparr>recorder := new_recorder (total_messages sc)\<rparr>)))"
  have w2: "pending (adapter w2) = []" "recorder w2 = new_recorder (total_messages sc)"
    by (simp_all add: w2_def emit_def adapter_prepare_def)
  from run_workload_can_return [of False w2 0 sc False] obtain s1 d0 where
    s1: "no_spurious s1" and "fst (run_workload w2 sc 0 False False s1) = Some d0"
    by auto
  then obtain w3 where r1: "run_workload w2 sc 0 False False s1 = (Some d0, w3)"
    by (cases "run_workload w2 sc 0 False False s1") simp
  from warmup_leaves_recorder [OF r1 w2(1)] w2(2) have
    w3: "recorder w3 = new_recorder (total_messages sc)" "pending (adapter w3) = []"
    by simp_all
  from run_workload_can_return [of True w3 "total_messages sc" sc True] w3 obtain s2 d where
    s2: "no_spurious s2" and "fst (run_workload w3 sc (total_messages sc) True True s2) = Some d"
    by auto
  then obtain w4 where r2: "run_workload w3 sc (total_messages sc) True True s2 = (Some d, w4)"
    by (cases "run_workload w3 sc (total_messages sc) True True s2") simp
  have "\<exists>res w'. execute_scenario fp w sc 0 s1 s2 = Some (res, w')"
    using r1 r2 unfolding execute_scenario_def Let_def w2_def [symmetric] by simp
  with s1 s2 show ?thesis by blast
qed

subsection \<open>The notification of the last producer\<close>

text \<open>
  A notification is pending only once every producer has arrived, so a producer that is
  still to arrive, and with it every call of \<open>notify_one\<close>, finds none pending: the call
  happens at most once in a run.
\<close>

lemma notified_step:
  assumes thr: "inv_threads sc st"
    and inv: "notified st \<noteq> [] \<longrightarrow> ready st = producers sc"
  shows "notified (step sc r md st a) \<noteq> [] \<longrightarrow> ready (step sc r md st a) = producers sc"
proof (cases "fst a")
  case Main
  then show ?thesis using inv
    by (auto simp: step_def Let_def main_step_def emit_def adapter_flush_def cv_defs
             split: main_pc.splits)
next
  case (Producer k)
  show ?thesis
  proof (cases "k < length (threads st) \<and> pc (threads st ! k) = AtEntry")
    case True
    then have "length (filter (\<lambda>th. pc th \<noteq> AtEntry) (threads st)) < length (threads st)"
      using filter_some_not [of k "threads st" "\<lambda>th. pc th \<noteq> AtEntry"] by simp
    then have "unat (ready st) < unat (producers sc)"
      using inv_threadsD(1,5) [OF thr] by simp
    then have "ready st \<noteq> producers sc" by auto
    with inv have "notified st = []" by blast
    then show ?thesis using Producer True
      by (auto simp: step_def Let_def producer_step_def emit_def cv_defs)
  next
    case False
    then show ?thesis using Producer inv
      by (auto simp: step_def Let_def producer_step_def emit_def set_pc_def adapter_log_def
                     cv_defs
               split: producer_pc.splits option.splits)
  qed
next
  case Sink
  then show ?thesis using inv
    by (simp add: step_def Let_def adapter_sink_def split: list.splits)
next
  case (Deliver b)
  then show ?thesis using inv by (simp add: step_def Let_def cv_defs)
next
  case (Spurious b)
  then show ?thesis using inv by (simp add: step_def Let_def cv_defs)
qed

lemma notify_one_once:
  assumes "k < length (threads (exec w sc n r md sched))"
    and "pc (threads (exec w sc n r md sched) ! k) = AtEntry"
  shows "notified (exec w sc n r md sched) = []"
proof -
  let ?st = "exec w sc n r md sched"
  have inv: "inv_threads sc ?st \<and> (notified ?st \<noteq> [] \<longrightarrow> ready ?st = producers sc)"
    unfolding exec_def
  proof (rule foldl_invariant)
    show "inv_threads sc
           (start_state (emit (EvRun n r md) w) (distribute n (producers sc))) \<and>
          (notified (start_state (emit (EvRun n r md) w) (distribute n (producers sc))) \<noteq> [] \<longrightarrow>
           ready (start_state (emit (EvRun n r md) w) (distribute n (producers sc))) =
             producers sc)"
      using inv_threads_start [of sc "emit (EvRun n r md) w"]
      by (simp add: start_state_def world.defs run_state.defs)
  next
    fix st :: run_state and a
    assume "inv_threads sc st \<and> (notified st \<noteq> [] \<longrightarrow> ready st = producers sc)"
    then show "inv_threads sc (step sc r md st a) \<and>
        (notified (step sc r md st a) \<noteq> [] \<longrightarrow> ready (step sc r md st a) = producers sc)"
      using inv_threads_step [of sc st r md a] notified_step [of sc st r md a] by blast
  qed
  have "length (filter (\<lambda>th. pc th \<noteq> AtEntry) (threads ?st)) < length (threads ?st)"
    using filter_some_not [of k "threads ?st" "\<lambda>th. pc th \<noteq> AtEntry"] assms by simp
  then have "unat (ready ?st) < unat (producers sc)"
    using inv inv_threadsD(1,5) [of sc ?st] by simp
  then have "ready ?st \<noteq> producers sc" by auto
  with inv show ?thesis by blast
qed

subsection \<open>A run that never returns\<close>

lemma all_asleep_step:
  assumes "all_asleep st" "\<not> is_spurious (fst a)"
  shows "all_asleep (step sc r md st a)"
proof (cases "fst a")
  case Main
  then show ?thesis using assms(1) by (simp add: step_def Let_def all_asleep_def main_step_def)
next
  case (Producer k)
  then show ?thesis using assms(1)
    by (cases "k < length (threads st)")
       (simp_all add: step_def Let_def all_asleep_def producer_step_def)
next
  case Sink
  then show ?thesis using assms(1)
    by (simp add: step_def Let_def all_asleep_def adapter_sink_def split: list.splits)
next
  case (Deliver b)
  then show ?thesis using assms(1) by (simp add: step_def Let_def all_asleep_def cv_deliver_def)
next
  case (Spurious b)
  with assms(2) show ?thesis by (simp add: is_spurious_def)
qed

lemma all_asleep_run:
  "all_asleep st \<Longrightarrow> no_spurious rest \<Longrightarrow> all_asleep (foldl (step sc r md) st rest)"
  by (induction rest arbitrary: st) (simp_all add: no_spurious_def all_asleep_step)

lemma lost_wakeup_asleep:
  assumes "producers sc = 2"
  shows "all_asleep (exec w sc n r md lost_wakeup)"
  using assms
  by (simp add: exec_def lost_wakeup_def step_def main_step_def producer_step_def Let_def
                start_state_def emit_def cv_defs all_asleep_def world.defs run_state.defs
                nth_append less_Suc_eq)

text \<open>
  Claim C7. The claim says that \<open>run_workload\<close> returns, with the duration 0, whenever
  \<open>measure_duration\<close> is false. With two producers it may never return. Under the
  schedule \<open>lost_wakeup\<close> the controlling thread finds \<open>ready\<close> below \<open>producers\<close> and blocks
  in its wait; producer 0 arrives and blocks; producer 1 arrives, makes \<open>ready\<close> equal to
  \<open>producers\<close> and calls \<open>notify_one\<close>, which wakes producer 0 and not the controlling
  thread; producer 0 finds \<open>start_flag\<close> false and blocks again. All three threads are then
  blocked on \<open>start_cv\<close> with no notification to come, and however the schedule goes on,
  unless a wait wakes spuriously, the function does not return: for every world,
  message count and value of the two flags, so also with \<open>measure_duration = false\<close>.
\<close>

theorem warmup_may_never_return:
  assumes "producers sc = 2" and "no_spurious rest"
  shows "fst (run_workload w sc n r md (lost_wakeup @ rest)) = None"
proof -
  have "all_asleep (foldl (step sc r md) (exec w sc n r md lost_wakeup) rest)"
    using lost_wakeup_asleep [OF assms(1)] assms(2) by (rule all_asleep_run)
  then have "ctl (exec w sc n r md (lost_wakeup @ rest)) = WaitReady"
    by (simp add: exec_def all_asleep_def)
  then show ?thesis using assms(1) by (simp add: run_workload_def Let_def)
qed

theorem warmup_may_never_return_witness:
  "producers demo_scenario = 2 \<and> no_spurious demo_rest \<and>
   fst (run_workload demo_world demo_scenario 2 False False (lost_wakeup @ demo_rest)) = None"
proof -
  have p: "producers demo_scenario = 2" by (simp add: demo_scenario_def)
  have s: "no_spurious demo_rest" by (simp add: no_spurious_def demo_rest_def is_spurious_def)
  from warmup_may_never_return [OF p s, of demo_world 2 False False] p s
  show ?thesis by simp
qed

end
